theory Spec2Isabelle
  imports Main "HOL-Library.Signed_Division" "HOL-Library.Multiset"
begin

section \<open>The stencil operator of the AllScale API (stencil.h)\<close>

text \<open>
  This theory embeds \<^verbatim>\<open>allscale/api/user/operator/stencil.h\<close>: the bases and zoids of
  the recursive scheduler, the plain scanner with its wrap-around, the execution plan and
  the five \<^verbatim>\<open>process\<close> functions.

  Conventions of the embedding.
  \<^item> \<^verbatim>\<open>index_type\<close> (\<^verbatim>\<open>std::int64_t\<close>), \<^verbatim>\<open>time_type\<close> (\<^verbatim>\<open>std::size_t\<close>) and
    \<^verbatim>\<open>int\<close> values are integers of HOL. Arithmetic on \<^verbatim>\<open>index_type\<close> is exact: the
    theory covers the executions in which it stays within 64 bits. A conversion to
    \<^verbatim>\<open>int\<close> keeps the low 32 bits and reads them as a signed number
    (\<open>signed_take_bit 31\<close>), arithmetic on \<^verbatim>\<open>int\<close> values wraps in the same way, and a
    conversion to \<^verbatim>\<open>std::size_t\<close> and the arithmetic on it are modulo \<open>2^64\<close>
    (\<open>take_bit 64\<close>).
  \<^item> The C++ operator \<^verbatim>\<open>/\<close> truncates towards zero: it is \<open>sdiv\<close>.
  \<^item> The template parameter \<^verbatim>\<open>dims\<close> is the length of the lists that stand for
    \<^verbatim>\<open>std::array\<close> and \<^verbatim>\<open>data::Vector\<close> values.
\<close>

subsection \<open>Base\<close>

text \<open>\<^verbatim>\<open>Base::range\<close>; the fields are \<^verbatim>\<open>begin\<close> and \<^verbatim>\<open>end\<close> in the source.\<close>

record range_t =
  r_begin :: int
  r_end :: int

type_synonym Base = "range_t list"

type_synonym Coordinate = "int list"

type_synonym Slopes = "int list"

text \<open>\<^verbatim>\<open>Base::full(const data::Vector<T,dims>& size)\<close>\<close>

definition full :: "Coordinate \<Rightarrow> Base" where
  "full sz = map (\<lambda>i. \<lparr>r_begin = 0, r_end = sz ! i\<rparr>) [0..<length sz]"

text \<open>\<^verbatim>\<open>Base::getWidth(dim)\<close>\<close>

definition Base_getWidth :: "Base \<Rightarrow> nat \<Rightarrow> int" where
  "Base_getWidth b dim = r_end (b ! dim) - r_begin (b ! dim)"

text \<open>\<^verbatim>\<open>Base::extend()\<close>\<close>

definition Base_extend :: "Base \<Rightarrow> Coordinate" where
  "Base_extend b = map (\<lambda>i. Base_getWidth b i) [0..<length b]"

text \<open>\<^verbatim>\<open>Base::getMinimumWidth()\<close> and \<^verbatim>\<open>Base::getMaximumWidth()\<close>: the loops start from
  the width of dimension 0 and run over the dimensions \<open>1 .. dims-1\<close>.\<close>

definition getMinimumWidth :: "Base \<Rightarrow> int" where
  "getMinimumWidth b =
     fold (\<lambda>i res. min res (Base_getWidth b i)) [1..<length b] (Base_getWidth b 0)"

definition getMaximumWidth :: "Base \<Rightarrow> int" where
  "getMaximumWidth b =
     fold (\<lambda>i res. max res (Base_getWidth b i)) [1..<length b] (Base_getWidth b 0)"

subsection \<open>Zoid\<close>

record Zoid =
  base :: Base
  slopes :: Slopes
  t_begin :: int
  t_end :: int

text \<open>\<^verbatim>\<open>Zoid::getHeight()\<close>: the difference of the two \<^verbatim>\<open>std::size_t\<close> times, returned
  as an \<^verbatim>\<open>int\<close>.\<close>

definition getHeight :: "Zoid \<Rightarrow> int" where
  "getHeight z = signed_take_bit 31 (take_bit 64 (t_end z - t_begin z))"

text \<open>\<^verbatim>\<open>Zoid::isTerminal()\<close>\<close>

definition isTerminal :: "Zoid \<Rightarrow> bool" where
  "isTerminal z \<longleftrightarrow> getHeight z \<le> 1 \<and> getMaximumWidth (base z) < 3"

text \<open>\<^verbatim>\<open>Zoid::getWidth(dim)\<close>: the width of the shadow of the zoid on a space dimension.
  The width of the base is an \<^verbatim>\<open>index_type\<close>; \<^verbatim>\<open>res\<close> and the result are
  \<^verbatim>\<open>int\<close>.\<close>

definition Zoid_getWidth :: "Zoid \<Rightarrow> nat \<Rightarrow> int" where
  "Zoid_getWidth z dim =
     (let res = signed_take_bit 31 (Base_getWidth (base z) dim)
      in if slopes z ! dim < 0 then signed_take_bit 31 (res + 2 * getHeight z) else res)"

text \<open>\<^verbatim>\<open>Zoid::isSplitable(dim)\<close> and \<^verbatim>\<open>Zoid::isSpaceSplitable()\<close>\<close>

definition isSplitable :: "Zoid \<Rightarrow> nat \<Rightarrow> bool" where
  "isSplitable z dim \<longleftrightarrow> Zoid_getWidth z dim > signed_take_bit 31 (4 * getHeight z)"

definition isSpaceSplitable :: "Zoid \<Rightarrow> bool" where
  "isSpaceSplitable z \<longleftrightarrow> list_ex (isSplitable z) [0..<length (base z)]"

text \<open>\<^verbatim>\<open>Zoid::TimeDecomposition\<close> (fields \<^verbatim>\<open>top\<close> and \<^verbatim>\<open>bottom\<close>) and
  \<^verbatim>\<open>Zoid::splitTime()\<close>. \<^verbatim>\<open>split\<close> is an \<^verbatim>\<open>int\<close>, \<^verbatim>\<open>diff\<close> an
  \<^verbatim>\<open>index_type\<close>, and \<^verbatim>\<open>t_begin+split\<close> a \<^verbatim>\<open>std::size_t\<close>.\<close>

record TimeDecomposition =
  part_top :: Zoid
  part_bottom :: Zoid

definition splitTime :: "Zoid \<Rightarrow> TimeDecomposition" where
  "splitTime z =
     (let split = getHeight z sdiv 2;
          mid = map (\<lambda>i. let diff = slopes z ! i * split
                          in \<lparr>r_begin = r_begin (base z ! i) + diff,
                              r_end = r_end (base z ! i) - diff\<rparr>)
                    [0..<length (base z)]
      in \<lparr>part_top = \<lparr>base = mid, slopes = slopes z,
                  t_begin = take_bit 64 (t_begin z + split), t_end = t_end z\<rparr>,
          part_bottom = \<lparr>base = base z, slopes = slopes z,
                     t_begin = t_begin z, t_end = take_bit 64 (t_begin z + split)\<rparr>\<rparr>)"

text \<open>\<^verbatim>\<open>Zoid::SpaceDecomposition\<close> (fields \<^verbatim>\<open>l\<close>, \<^verbatim>\<open>c\<close>, \<^verbatim>\<open>r\<close> and
  \<^verbatim>\<open>opening\<close>) and \<^verbatim>\<open>Zoid::splitSpace()\<close>. The first loop of
  \<^verbatim>\<open>splitSpace\<close> looks for the dimension of the widest shadow, starting from
  \<^verbatim>\<open>max_dim = 0\<close> and \<^verbatim>\<open>max_width = 0\<close>; its state is the pair
  \<open>(max_dim, max_width)\<close>.\<close>

record SpaceDecomposition =
  part_l :: Zoid
  part_c :: Zoid
  part_r :: Zoid
  part_opening :: bool

definition split_dim :: "Zoid \<Rightarrow> nat" where
  "split_dim z =
     fst (fold (\<lambda>i (max_dim, max_width).
                   let width = Zoid_getWidth z i
                   in if width > max_width then (i, width) else (max_dim, max_width))
               [0..<length (base z)] (0, 0))"

definition splitSpace :: "Zoid \<Rightarrow> SpaceDecomposition" where
  "splitSpace z =
     (let d = split_dim z;
          center = (r_begin (base z ! d) + r_end (base z ! d)) sdiv 2;
          left = (if slopes z ! d < 0 then center - getHeight z else center);
          right = (if slopes z ! d < 0 then center + getHeight z else center)
      in \<lparr>part_l = z\<lparr>base := (base z)[d := (base z ! d)\<lparr>r_end := left\<rparr>]\<rparr>,
          part_c = z\<lparr>base := (base z)[d := \<lparr>r_begin = left, r_end = right\<rparr>],
                slopes := (slopes z)[d := slopes z ! d * (- 1)]\<rparr>,
          part_r = z\<lparr>base := (base z)[d := (base z ! d)\<lparr>r_begin := right\<rparr>]\<rparr>,
          part_opening = (slopes z ! d < 0)\<rparr>)"

text \<open>The calls \<^verbatim>\<open>rec(...)\<close> that the parallel step case of \<^verbatim>\<open>Zoid::pforEach\<close> issues
  for a zoid, in the order in which they are submitted: bottom and top after a time split;
  after a space split the centre first when the split dimension is opening, last when it
  is closing.\<close>

definition pforEach_rec_calls :: "Zoid \<Rightarrow> Zoid list" where
  "pforEach_rec_calls z =
     (if \<not> isSpaceSplitable z
      then (let parts = splitTime z in [part_bottom parts, part_top parts])
      else (let parts = splitSpace z
            in if part_opening parts
               then [part_c parts, part_l parts, part_r parts]
               else [part_l parts, part_r parts, part_c parts]))"

subsection \<open>The plain scanner\<close>

text \<open>
  Both specialisations of \<^verbatim>\<open>plain_scanner\<close> contain the same loop over one axis
  \<^verbatim>\<open>idx\<close>: the range of the base is shifted into the size window when it starts beyond
  it, scanned up to the limit, and continued from 0 when it reaches beyond the limit.
  \<open>scan_axis\<close> is this loop; \<open>body p\<close> is what the loop does with \<^verbatim>\<open>pos[idx] = p\<close>.
  A \<^verbatim>\<open>for\<close> loop over \<^verbatim>\<open>[from, limit)\<close> is a fold over \<open>[from..limit - 1]\<close>.
\<close>

definition scan_axis :: "nat \<Rightarrow> Base \<Rightarrow> Coordinate \<Rightarrow> (int \<Rightarrow> 's \<Rightarrow> 's) \<Rightarrow> 's \<Rightarrow> 's" where
  "scan_axis idx b sz body s =
     (let from0 = r_begin (b ! idx);
          to0 = r_end (b ! idx);
          len = sz ! idx;
          from1 = (if from0 > len then from0 - len else from0);
          to1 = (if from0 > len then to0 - len else to0);
          limit = min to1 len;
          s1 = fold body [from1..limit - 1] s
      in if to1 \<le> len then s1 else fold body [0..to1 - len - 1] s1)"

text \<open>\<^verbatim>\<open>plain_scanner<dim>::operator()\<close>: the template parameter is the first argument,
  \<^verbatim>\<open>full_dim\<close> is the length of the base. The coordinate \<^verbatim>\<open>pos\<close> is passed by
  reference in the source; every level overwrites its own component before the level
  below reads it, so passing the updated vector down is the same.\<close>

fun plain_scanner ::
  "nat \<Rightarrow> Base \<Rightarrow> (Coordinate \<Rightarrow> int \<Rightarrow> 's \<Rightarrow> 's) \<Rightarrow> Coordinate \<Rightarrow> int \<Rightarrow> Coordinate \<Rightarrow> 's \<Rightarrow> 's"
where
  "plain_scanner 0 b lambda pos t sz =
     (let idx = length b - 1
      in scan_axis idx b sz (\<lambda>p. lambda (pos[idx := p]) t))"
| "plain_scanner (Suc dim) b lambda pos t sz =
     (let idx = length b - Suc dim - 1
      in scan_axis idx b sz (\<lambda>p. plain_scanner dim b lambda (pos[idx := p]) t sz))"

text \<open>\<^verbatim>\<open>Zoid::forEach(even, odd, limits)\<close>. The state of the time loop is the pair of
  \<^verbatim>\<open>plainBase\<close> and the state that the two operations work on. The coordinate \<^verbatim>\<open>x\<close>
  is not initialised in the source; the scanner writes every component before use. The
  loop counter is a \<^verbatim>\<open>std::size_t\<close> and the time parameter of the scanner an
  \<^verbatim>\<open>int\<close>.\<close>

definition forEach ::
  "Zoid \<Rightarrow> (Coordinate \<Rightarrow> int \<Rightarrow> 's \<Rightarrow> 's) \<Rightarrow> (Coordinate \<Rightarrow> int \<Rightarrow> 's \<Rightarrow> 's) \<Rightarrow> Coordinate \<Rightarrow> 's \<Rightarrow> 's"
where
  "forEach z even_op odd_op limits s =
     (let dims = length (base z);
          x = replicate dims 0
      in snd (fold (\<lambda>t (plainBase, s).
                      (map (\<lambda>i. \<lparr>r_begin = r_begin (plainBase ! i) + slopes z ! i,
                                  r_end = r_end (plainBase ! i) - slopes z ! i\<rparr>) [0..<dims],
                       if odd t
                       then plain_scanner (dims - 1) plainBase odd_op x
                              (signed_take_bit 31 t) limits s
                       else plain_scanner (dims - 1) plainBase even_op x
                              (signed_take_bit 31 t) limits s))
                   [t_begin z..t_end z - 1] (base z, s)))"

subsection \<open>The execution plan\<close>

type_synonym layer_plan = "Zoid list"

type_synonym ExecutionPlan = "layer_plan list"

text \<open>\<^verbatim>\<open>ExecutionPlan::getNumBitsSet\<close> (\<^verbatim>\<open>__builtin_popcount\<close>)\<close>

fun getNumBitsSet :: "nat \<Rightarrow> nat" where
  "getNumBitsSet m = (if m = 0 then 0 else m mod 2 + getNumBitsSet (m div 2))"

declare getNumBitsSet.simps [simp del]

text \<open>
  \<^verbatim>\<open>ExecutionPlan::runSequential\<close>. \<^verbatim>\<open>std::sort\<close> is not stable, so the source fixes
  the order of the task indices only up to the number of their 1-bits; \<open>order\<close> is the
  array that the sort leaves, and \<open>sorted_by_bits\<close> says what the sort guarantees of it.
\<close>

definition sorted_by_bits :: "nat \<Rightarrow> nat list \<Rightarrow> bool" where
  "sorted_by_bits Dims order \<longleftrightarrow>
     mset order = mset [0..<2 ^ Dims] \<and> sorted (map getNumBitsSet order)"

definition runSequential ::
  "nat list \<Rightarrow> ExecutionPlan \<Rightarrow> (Coordinate \<Rightarrow> int \<Rightarrow> 's \<Rightarrow> 's) \<Rightarrow> (Coordinate \<Rightarrow> int \<Rightarrow> 's \<Rightarrow> 's) \<Rightarrow>
   Coordinate \<Rightarrow> 's \<Rightarrow> 's"
where
  "runSequential order layers even_op odd_op limits s =
     fold (\<lambda>cur s. fold (\<lambda>idx s. forEach (cur ! idx) even_op odd_op limits s) order s) layers s"

text \<open>The local struct \<^verbatim>\<open>split\<close> of \<^verbatim>\<open>ExecutionPlan::create\<close> (fields \<^verbatim>\<open>left\<close> and
  \<^verbatim>\<open>right\<close>), and the loop that fills \<^verbatim>\<open>splits\<close>.\<close>

record split =
  split_left :: range_t
  split_right :: range_t

definition create_splits :: "Base \<Rightarrow> split list" where
  "create_splits b =
     (let sz = Base_extend b;
          width = getMinimumWidth b
      in map (\<lambda>i. let curWidth = sz ! i;
                       mid = curWidth - (curWidth - width) sdiv 2
                   in \<lparr>split_left = \<lparr>r_begin = 0, r_end = mid\<rparr>,
                       split_right = \<lparr>r_begin = mid, r_end = curWidth\<rparr>\<rparr>)
             [0..<length b])"

text \<open>The body of the loop over the binary patterns \<open>i\<close>: the loop over \<open>j\<close> moves the
  base and sets the slopes, then the zoid is built. \<^verbatim>\<open>slopes\<close> is not initialised in the
  source; the loop writes every component.\<close>

definition create_zoid :: "Base \<Rightarrow> split list \<Rightarrow> int \<Rightarrow> int \<Rightarrow> nat \<Rightarrow> Zoid" where
  "create_zoid b splits t0 t1 i =
     (let (curBase, slopes) =
            fold (\<lambda>j (curBase, slopes).
                    if bit i j
                    then (curBase[j := split_right (splits ! j)], slopes[j := - 1])
                    else (curBase[j := split_left (splits ! j)], slopes[j := 1]))
                 [0..<length b] (b, replicate (length b) 0)
      in \<lparr>base = curBase, slopes = slopes, t_begin = t0, t_end = t1\<rparr>)"

text \<open>
  The time loop of \<^verbatim>\<open>ExecutionPlan::create\<close>,
  \<^verbatim>\<open>for(int t0=0; t0<steps; t0+=height)\<close>. The counter is an \<^verbatim>\<open>int\<close> and the height
  an \<^verbatim>\<open>index_type\<close>: the sum is narrowed to 32 bits when it is assigned
  (\<open>signed_take_bit 31\<close>). \<^verbatim>\<open>std::min<std::size_t>\<close> converts both of its arguments, and
  the constructor of the zoid its time arguments, to \<^verbatim>\<open>std::size_t\<close> (\<open>take_bit 64\<close>).
  The loop need not end, so it is a partial function: \<open>None\<close> stands for a loop that
  appends layers for ever.
\<close>

partial_function (option) create_loop ::
  "Base \<Rightarrow> split list \<Rightarrow> int \<Rightarrow> int \<Rightarrow> ExecutionPlan \<Rightarrow> int \<Rightarrow> ExecutionPlan option"
where
  "create_loop b splits height steps layers t0 =
     (if t0 < steps
      then (let t1 = min (take_bit 64 (t0 + height)) (take_bit 64 steps);
                zoids = map (create_zoid b splits (take_bit 64 t0) t1) [0..<2 ^ length b]
            in create_loop b splits height steps (layers @ [zoids])
                 (signed_take_bit 31 (t0 + height)))
      else Some layers)"

text \<open>\<^verbatim>\<open>ExecutionPlan::create(base, steps)\<close>\<close>

definition create :: "Base \<Rightarrow> int \<Rightarrow> ExecutionPlan option" where
  "create b steps =
     (let width = getMinimumWidth b;
          height = width sdiv 2
      in create_loop b (create_splits b) height steps [] 0)"

subsection \<open>Containers\<close>

text \<open>
  The stencil reads the size of a container and reads and writes its cells by index
  (\<^verbatim>\<open>data::Grid\<close>, or a one-dimensional container indexed by a scalar, which is a
  coordinate of length one here). \<^verbatim>\<open>Container b(a.size())\<close> builds a container of
  the size of \<^verbatim>\<open>a\<close> whose cells hold what the allocation left there: \<open>b_init\<close>.
\<close>

record 'v container =
  csize :: Coordinate
  cell :: "Coordinate \<Rightarrow> 'v"

definition store :: "'v container \<Rightarrow> Coordinate \<Rightarrow> 'v \<Rightarrow> 'v container" where
  "store cont p v = cont\<lparr>cell := (cell cont)(p := v)\<rparr>"

definition fresh :: "Coordinate \<Rightarrow> (Coordinate \<Rightarrow> 'v) \<Rightarrow> 'v container" where
  "fresh sz b_init = \<lparr>csize = sz, cell = b_init\<rparr>"

text \<open>Modelled from the spec: \<^verbatim>\<open>detail::forEach(begin, end, body)\<close> of \<^verbatim>\<open>pfor.h\<close>, which
  is not part of the sources at hand. The spec has it "scan indices sequentially", "for
  each index \<open>i\<close> in the container's index space"; \<open>indices\<close> lists this index space, the
  last axis running fastest.\<close>

fun indices :: "Coordinate \<Rightarrow> Coordinate list" where
  "indices [] = [[]]"
| "indices (n # ns) = concat (map (\<lambda>i. map ((#) i) (indices ns)) [0..n - 1])"

definition detail_forEach :: "Coordinate \<Rightarrow> (Coordinate \<Rightarrow> 's \<Rightarrow> 's) \<Rightarrow> 's \<Rightarrow> 's" where
  "detail_forEach sz body s = fold body (indices sz) s"

text \<open>The cells of a container, in the order of its index space: two containers hold the
  same data when their sizes and these lists are equal.\<close>

definition contents :: "'v container \<Rightarrow> 'v list" where
  "contents cont = map (cell cont) (indices (csize cont))"

definition same_contents :: "'v container \<Rightarrow> 'v container \<Rightarrow> bool" where
  "same_contents c1 c2 \<longleftrightarrow> csize c1 = csize c2 \<and> contents c1 = contents c2"

subsection \<open>The iterative strategies\<close>

text \<open>
  The state of the lambda that \<^verbatim>\<open>process\<close> hands to \<^verbatim>\<open>async\<close>: the containers
  \<^verbatim>\<open>a\<close> and \<^verbatim>\<open>b\<close> and the two pointers. \<open>x_at_a\<close> holds when \<^verbatim>\<open>x == &a\<close> and
  \<^verbatim>\<open>y == &b\<close>; the pointers are only ever swapped, so otherwise \<^verbatim>\<open>x == &b\<close> and
  \<^verbatim>\<open>y == &a\<close>. Awaiting the handle that \<^verbatim>\<open>async\<close> returns is running the lambda to
  its end.
\<close>

record 'v iter_state =
  cont_a :: "'v container"
  cont_b :: "'v container"
  x_at_a :: bool

type_synonym 'v Update = "int \<Rightarrow> Coordinate \<Rightarrow> 'v container \<Rightarrow> 'v"

text \<open>The loop body \<^verbatim>\<open>(*y)[i] = update(t,i,*x)\<close> and \<^verbatim>\<open>std::swap(x,y)\<close>.\<close>

definition iter_body :: "'v Update \<Rightarrow> int \<Rightarrow> Coordinate \<Rightarrow> 'v iter_state \<Rightarrow> 'v iter_state" where
  "iter_body update t i st =
     (if x_at_a st
      then st\<lparr>cont_b := store (cont_b st) i (update t i (cont_a st))\<rparr>
      else st\<lparr>cont_a := store (cont_a st) i (update t i (cont_b st))\<rparr>)"

definition swap_xy :: "'v iter_state \<Rightarrow> 'v iter_state" where
  "swap_xy st = st\<lparr>x_at_a := \<not> x_at_a st\<rparr>"

text \<open>\<^verbatim>\<open>if (x != &a) std::swap(a,b)\<close>, and what \<^verbatim>\<open>a\<close> holds afterwards.\<close>

definition final_swap :: "'v iter_state \<Rightarrow> 'v iter_state" where
  "final_swap st =
     (if \<not> x_at_a st then st\<lparr>cont_a := cont_b st, cont_b := cont_a st\<rparr> else st)"

definition initial_state :: "'v container \<Rightarrow> (Coordinate \<Rightarrow> 'v) \<Rightarrow> 'v iter_state" where
  "initial_state a b_init = \<lparr>cont_a = a, cont_b = fresh (csize a) b_init, x_at_a = True\<rparr>"

text \<open>\<^verbatim>\<open>sequential_iterative::process\<close>: the time loop \<^verbatim>\<open>for(int t=0; t<steps; t++)\<close> from
  the counter value \<open>t\<close> on, and the whole lambda.\<close>

function sequential_iterative_loop ::
  "'v Update \<Rightarrow> int \<Rightarrow> int \<Rightarrow> 'v iter_state \<Rightarrow> 'v iter_state"
where
  "sequential_iterative_loop update steps t st =
     (if t < steps
      then sequential_iterative_loop update steps (t + 1)
             (swap_xy (detail_forEach (csize (cont_a st)) (iter_body update t) st))
      else st)"
  by pat_completeness auto
termination
  by (relation "measure (\<lambda>(update, steps, t, st). nat (steps - t))") auto

declare sequential_iterative_loop.simps [simp del]

definition sequential_iterative ::
  "'v container \<Rightarrow> int \<Rightarrow> 'v Update \<Rightarrow> (Coordinate \<Rightarrow> 'v) \<Rightarrow> 'v container"
where
  "sequential_iterative a steps update b_init =
     cont_a (final_swap (sequential_iterative_loop update steps 0 (initial_state a b_init)))"

text \<open>
  \<^verbatim>\<open>coarse_grained_iterative::process\<close>. Modelled from the spec: \<^verbatim>\<open>pfor(begin, end,
  body)\<close> of \<^verbatim>\<open>pfor.h\<close>, a "parallel-for over indices with a full barrier between
  steps". The iterations of a step write different cells and read the other container,
  and the step is over before the next begins; \<open>sched t\<close> is the order in which the
  runtime happens to run the iterations of step \<open>t\<close>, and \<open>pfor_order\<close> says that it
  runs each index of the index space once.
\<close>

definition pfor_order :: "Coordinate \<Rightarrow> Coordinate list \<Rightarrow> bool" where
  "pfor_order sz xs \<longleftrightarrow> mset xs = mset (indices sz)"

function coarse_grained_iterative_loop ::
  "(int \<Rightarrow> Coordinate list) \<Rightarrow> 'v Update \<Rightarrow> int \<Rightarrow> int \<Rightarrow> 'v iter_state \<Rightarrow> 'v iter_state"
where
  "coarse_grained_iterative_loop sched update steps t st =
     (if t < steps
      then coarse_grained_iterative_loop sched update steps (t + 1)
             (swap_xy (fold (iter_body update t) (sched t) st))
      else st)"
  by pat_completeness auto
termination
  by (relation "measure (\<lambda>(sched, update, steps, t, st). nat (steps - t))") auto

declare coarse_grained_iterative_loop.simps [simp del]

definition coarse_grained_iterative ::
  "(int \<Rightarrow> Coordinate list) \<Rightarrow> 'v container \<Rightarrow> int \<Rightarrow> 'v Update \<Rightarrow> (Coordinate \<Rightarrow> 'v) \<Rightarrow> 'v container"
where
  "coarse_grained_iterative sched a steps update b_init =
     cont_a (final_swap (coarse_grained_iterative_loop sched update steps 0
                           (initial_state a b_init)))"

text \<open>
  \<^verbatim>\<open>fine_grained_iterative::process\<close>. Modelled from the spec: \<^verbatim>\<open>pfor\<close> with
  \<^verbatim>\<open>neighborhood_sync\<close> and \<^verbatim>\<open>loop_reference\<close> of \<^verbatim>\<open>pfor.h\<close>. The call returns a
  reference to a loop whose iterations run later: "task \<open>(t, i)\<close> depends only on tasks
  \<open>(t-1, j)\<close> for \<open>j\<close> in the stencil neighborhood of \<open>i\<close>, not on the whole previous
  step", and "the final reference is awaited before returning".

  The time loop therefore only issues the loops and swaps the pointers: its state is the
  pointer flag and the list of the loops issued so far, each with the value of the flag
  that its lambda captured. The iterations \<open>(t, i)\<close> run in an order that the runtime
  chooses. In the source the final \<^verbatim>\<open>std::swap(a,b)\<close> stands before \<^verbatim>\<open>ref.wait()\<close>, so
  the schedule has two parts: the iterations that ran before the swap and those that
  ran after it, until the wait is over.
\<close>

function fine_grained_iterative_loop ::
  "int \<Rightarrow> int \<Rightarrow> bool \<times> (int \<times> bool) list \<Rightarrow> bool \<times> (int \<times> bool) list"
where
  "fine_grained_iterative_loop steps t (x_a, issued) =
     (if t < steps
      then fine_grained_iterative_loop steps (t + 1) (\<not> x_a, issued @ [(t, x_a)])
      else (x_a, issued))"
  by pat_completeness auto
termination
  by (relation "measure (\<lambda>(steps, t, st). nat (steps - t))") auto

declare fine_grained_iterative_loop.simps [simp del]

text \<open>One iteration of an issued loop: the body with the pointers of its closure.\<close>

definition run_iteration ::
  "'v Update \<Rightarrow> (int \<times> bool) list \<Rightarrow> int \<times> Coordinate \<Rightarrow> 'v iter_state \<Rightarrow> 'v iter_state"
where
  "run_iteration update issued task st =
     (case map_of issued (fst task) of
        None \<Rightarrow> st
      | Some x_a \<Rightarrow> (iter_body update (fst task) (snd task) (st\<lparr>x_at_a := x_a\<rparr>))
                      \<lparr>x_at_a := x_at_a st\<rparr>)"

definition fine_grained_iterative ::
  "(int \<times> Coordinate) list \<Rightarrow> (int \<times> Coordinate) list \<Rightarrow>
   'v container \<Rightarrow> int \<Rightarrow> 'v Update \<Rightarrow> (Coordinate \<Rightarrow> 'v) \<Rightarrow> 'v container"
where
  "fine_grained_iterative before_swap after_swap a steps update b_init =
     (let (x_a, issued) = fine_grained_iterative_loop steps 0 (True, []);
          st1 = fold (run_iteration update issued) before_swap (initial_state a b_init);
          st2 = final_swap (st1\<lparr>x_at_a := x_a\<rparr>);
          st3 = fold (run_iteration update issued) after_swap st2
      in cont_a st3)"

text \<open>The neighbourhood of a cell on the grid: the cells that differ from it by at most
  one on every axis, the axes being circular.\<close>

definition neighbours :: "Coordinate \<Rightarrow> Coordinate \<Rightarrow> Coordinate \<Rightarrow> bool" where
  "neighbours sz p q \<longleftrightarrow>
     length p = length sz \<and> length q = length sz \<and>
     (\<forall>d<length sz. \<exists>k\<in>{- 1, 0, 1}. q ! d = (p ! d + k) mod (sz ! d))"

text \<open>The iterations of all steps, and the schedules that the synchronisation admits:
  every iteration runs once, after the iterations of the step before on its neighbours.\<close>

definition all_iterations :: "Coordinate \<Rightarrow> int \<Rightarrow> (int \<times> Coordinate) list" where
  "all_iterations sz steps = concat (map (\<lambda>t. map (Pair t) (indices sz)) [0..steps - 1])"

definition respects_neighbours :: "Coordinate \<Rightarrow> (int \<times> Coordinate) list \<Rightarrow> bool" where
  "respects_neighbours sz s \<longleftrightarrow>
     (\<forall>k<length s. \<forall>q. 0 < fst (s ! k) \<and> q \<in> set (indices sz) \<and> neighbours sz (snd (s ! k)) q \<longrightarrow>
        (\<exists>j<k. s ! j = (fst (s ! k) - 1, q)))"

definition fine_grained_schedule :: "Coordinate \<Rightarrow> int \<Rightarrow> (int \<times> Coordinate) list \<Rightarrow> bool" where
  "fine_grained_schedule sz steps s \<longleftrightarrow>
     mset s = mset (all_iterations sz steps) \<and> respects_neighbours sz s"

subsection \<open>The recursive strategies\<close>

text \<open>The adapters \<^verbatim>\<open>even\<close> and \<^verbatim>\<open>odd\<close> of \<^verbatim>\<open>process\<close>, on the pair of the
  containers \<^verbatim>\<open>a\<close> and \<^verbatim>\<open>b\<close>.\<close>

definition even_op ::
  "'v Update \<Rightarrow> Coordinate \<Rightarrow> int \<Rightarrow> 'v container \<times> 'v container \<Rightarrow> 'v container \<times> 'v container"
where
  "even_op update pos t ab = (fst ab, store (snd ab) pos (update t pos (fst ab)))"

definition odd_op ::
  "'v Update \<Rightarrow> Coordinate \<Rightarrow> int \<Rightarrow> 'v container \<times> 'v container \<Rightarrow> 'v container \<times> 'v container"
where
  "odd_op update pos t ab = (store (fst ab) pos (update t pos (snd ab)), snd ab)"

text \<open>\<^verbatim>\<open>if (steps % 2) std::swap(a,b)\<close>: the remainder of the C++ operator has the sign of
  \<^verbatim>\<open>steps\<close> (\<open>smod\<close>).\<close>

definition result_in_a :: "int \<Rightarrow> 'v container \<times> 'v container \<Rightarrow> 'v container" where
  "result_in_a steps ab = (if steps smod 2 \<noteq> 0 then snd ab else fst ab)"

text \<open>\<^verbatim>\<open>sequential_recursive::process\<close>; \<open>None\<close> when the plan is never completed.\<close>

definition sequential_recursive ::
  "nat list \<Rightarrow> 'v container \<Rightarrow> int \<Rightarrow> 'v Update \<Rightarrow> (Coordinate \<Rightarrow> 'v) \<Rightarrow> 'v container option"
where
  "sequential_recursive order a steps update b_init =
     (let b = fresh (csize a) b_init;
          base0 = full (csize a);
          sz = Base_extend base0
      in case create base0 steps of
           None \<Rightarrow> None
         | Some exec_plan \<Rightarrow>
             Some (result_in_a steps
                     (runSequential order exec_plan (even_op update) (odd_op update) sz (a, b))))"

text \<open>The invocations \<open>(t, pos)\<close> of the two operations that \<^verbatim>\<open>Zoid::forEach\<close> makes, in
  their order, and the effect of a sequence of such invocations with the adapters of
  \<^verbatim>\<open>process\<close> (the operation is chosen by \<^verbatim>\<open>t & 0x1\<close>).\<close>

definition forEach_calls :: "Zoid \<Rightarrow> Coordinate \<Rightarrow> (int \<times> Coordinate) list" where
  "forEach_calls z limits =
     forEach z (\<lambda>pos t s. s @ [(t, pos)]) (\<lambda>pos t s. s @ [(t, pos)]) limits []"

definition run_calls ::
  "'v Update \<Rightarrow> (int \<times> Coordinate) list \<Rightarrow> 'v container \<times> 'v container \<Rightarrow> 'v container \<times> 'v container"
where
  "run_calls update s ab =
     fold (\<lambda>call ab. if odd (fst call) then odd_op update (snd call) (fst call) ab
                      else even_op update (snd call) (fst call) ab) s ab"

text \<open>
  \<^verbatim>\<open>Zoid::pforEach\<close>. Modelled from the spec: the primitives \<^verbatim>\<open>core::prec\<close>,
  \<^verbatim>\<open>core::pick\<close>, \<^verbatim>\<open>core::sequential\<close> and \<^verbatim>\<open>core::parallel\<close> of the task runtime,
  which is not part of the sources at hand. A terminal zoid is processed by
  \<^verbatim>\<open>forEach\<close>; for any other zoid the runtime picks the decomposing step case or the
  sequential one, which is \<^verbatim>\<open>forEach\<close> again. \<^verbatim>\<open>sequential\<close> runs its tasks one after
  the other and \<^verbatim>\<open>parallel\<close> in any interleaving. \<open>pforEach_schedule limits z s\<close>: the
  task of \<open>z\<close> can make the invocations \<open>s\<close>, in this order.
\<close>

inductive pforEach_schedule :: "Coordinate \<Rightarrow> Zoid \<Rightarrow> (int \<times> Coordinate) list \<Rightarrow> bool"
  for limits :: Coordinate
where
  process: "pforEach_schedule limits z (forEach_calls z limits)"
| time_split:
    "\<not> isTerminal z \<Longrightarrow> \<not> isSpaceSplitable z \<Longrightarrow>
     pforEach_schedule limits (part_bottom (splitTime z)) s1 \<Longrightarrow>
     pforEach_schedule limits (part_top (splitTime z)) s2 \<Longrightarrow>
     pforEach_schedule limits z (s1 @ s2)"
| space_split_opening:
    "\<not> isTerminal z \<Longrightarrow> isSpaceSplitable z \<Longrightarrow> part_opening (splitSpace z) \<Longrightarrow>
     pforEach_schedule limits (part_c (splitSpace z)) sc \<Longrightarrow>
     pforEach_schedule limits (part_l (splitSpace z)) sl \<Longrightarrow>
     pforEach_schedule limits (part_r (splitSpace z)) sr \<Longrightarrow>
     s \<in> shuffles sl sr \<Longrightarrow>
     pforEach_schedule limits z (sc @ s)"
| space_split_closing:
    "\<not> isTerminal z \<Longrightarrow> isSpaceSplitable z \<Longrightarrow> \<not> part_opening (splitSpace z) \<Longrightarrow>
     pforEach_schedule limits (part_l (splitSpace z)) sl \<Longrightarrow>
     pforEach_schedule limits (part_r (splitSpace z)) sr \<Longrightarrow>
     pforEach_schedule limits (part_c (splitSpace z)) sc \<Longrightarrow>
     s \<in> shuffles sl sr \<Longrightarrow>
     pforEach_schedule limits z (s @ sc)"

text \<open>\<^verbatim>\<open>task_dependency_extractor<taskIdx, Dims-1>\<close>: the predecessors of a task, each
  with one of the 1-bits of the task index cleared, from the highest bit down.\<close>

definition task_dependencies :: "nat \<Rightarrow> nat \<Rightarrow> nat list" where
  "task_dependencies Dims taskIdx =
     map (\<lambda>pos. unset_bit pos taskIdx) (filter (bit taskIdx) (rev [0..<Dims]))"

text \<open>\<^verbatim>\<open>task_graph_enumerator<Dims>\<close>: the task indices in the order in which
  \<^verbatim>\<open>enumTaskGraph\<close> passes them to its body, by the number of their bits and then by
  their value.\<close>

definition enumTaskGraph :: "nat \<Rightarrow> nat list" where
  "enumTaskGraph Dims =
     concat (map (\<lambda>numBits. filter (\<lambda>taskIdx. getNumBitsSet taskIdx = numBits) [0..<2 ^ Dims])
                 [0..<Dims + 1])"

text \<open>
  \<^verbatim>\<open>ExecutionPlan::runParallel\<close>. Modelled from the spec: the dependencies
  (\<^verbatim>\<open>core::after\<close>) of the task runtime. Within a layer the task of index \<open>idx\<close> starts
  when the tasks \<open>task_dependencies Dims idx\<close> are done; task 0 of a layer starts when the
  last task of the layer before is done, which is when that whole layer is done.
  The invocations of a layer are tagged with the index of their task: the invocations of
  each task form one of its schedules, and they come after those of its predecessors.
\<close>

definition layer_schedule :: "Coordinate \<Rightarrow> layer_plan \<Rightarrow> (int \<times> Coordinate) list \<Rightarrow> bool" where
  "layer_schedule limits cur s \<longleftrightarrow>
     (\<exists>tagged :: (nat \<times> int \<times> Coordinate) list.
        s = map snd tagged \<and>
        (\<forall>e\<in>set tagged. fst e < 2 ^ length limits) \<and>
        (\<forall>idx<2 ^ length limits.
           pforEach_schedule limits (cur ! idx) (map snd (filter (\<lambda>e. fst e = idx) tagged))) \<and>
        (\<forall>i<length tagged. \<forall>j<length tagged.
           fst (tagged ! i) \<in> set (task_dependencies (length limits) (fst (tagged ! j))) \<longrightarrow> i < j))"

inductive runParallel_schedule ::
  "Coordinate \<Rightarrow> ExecutionPlan \<Rightarrow> (int \<times> Coordinate) list \<Rightarrow> bool"
  for limits :: Coordinate
where
  no_layer: "runParallel_schedule limits [] []"
| next_layer:
    "layer_schedule limits cur s1 \<Longrightarrow> runParallel_schedule limits layers s2 \<Longrightarrow>
     runParallel_schedule limits (cur # layers) (s1 @ s2)"

text \<open>\<^verbatim>\<open>parallel_recursive::process\<close>, with the schedule of the invocations that
  \<^verbatim>\<open>runParallel(even,odd,size).wait()\<close> has made when it returns.\<close>

definition parallel_recursive ::
  "(int \<times> Coordinate) list \<Rightarrow> 'v container \<Rightarrow> int \<Rightarrow> 'v Update \<Rightarrow> (Coordinate \<Rightarrow> 'v) \<Rightarrow>
   'v container option"
where
  "parallel_recursive sched a steps update b_init =
     (let b = fresh (csize a) b_init;
          base0 = full (csize a)
      in case create base0 steps of
           None \<Rightarrow> None
         | Some exec_plan \<Rightarrow> Some (result_in_a steps (run_calls update sched (a, b))))"

declare create_loop.simps [code]

subsection \<open>Measures on zoids\<close>

text \<open>The order that the specification names for the recursive decomposition: the
  lexicographic order on the height and the maximum width of the base.\<close>

definition smaller_height_maxwidth :: "Zoid \<Rightarrow> Zoid \<Rightarrow> bool" where
  "smaller_height_maxwidth z' z \<longleftrightarrow>
     getHeight z' < getHeight z \<or>
     (getHeight z' = getHeight z \<and> getMaximumWidth (base z') < getMaximumWidth (base z))"

text \<open>The lexicographic order on the height and the sum of the widths of the base.\<close>

definition total_width :: "Base \<Rightarrow> int" where
  "total_width b = sum_list (Base_extend b)"

definition smaller_height_totalwidth :: "Zoid \<Rightarrow> Zoid \<Rightarrow> bool" where
  "smaller_height_totalwidth z' z \<longleftrightarrow>
     getHeight z' < getHeight z \<or>
     (getHeight z' = getHeight z \<and> total_width (base z') < total_width (base z))"

text \<open>The zoids on which the \<^verbatim>\<open>int\<close> computations of the scheduler lose nothing: the
  times are \<^verbatim>\<open>std::size_t\<close> values in their order, and four times the height and the
  widths of the base and of the shadow in every dimension are \<^verbatim>\<open>int\<close> values.\<close>

definition int_sized :: "Zoid \<Rightarrow> bool" where
  "int_sized z \<longleftrightarrow>
     0 \<le> t_begin z \<and> t_begin z \<le> t_end z \<and> t_end z < 2 ^ 64 \<and>
     4 * (t_end z - t_begin z) < 2 ^ 31 \<and>
     (\<forall>i<length (base z). - (2 ^ 31) \<le> Base_getWidth (base z) i \<and>
                          Base_getWidth (base z) i + 2 * (t_end z - t_begin z) < 2 ^ 31)"

subsection \<open>Example zoids\<close>

text \<open>A closing zoid of height 1 over a square of width 10, and a closing zoid of height
  1 over three cells of a line.\<close>

definition square_zoid :: Zoid where
  "square_zoid =
     \<lparr>base = [\<lparr>r_begin = 0, r_end = 10\<rparr>, \<lparr>r_begin = 0, r_end = 10\<rparr>],
      slopes = [1, 1], t_begin = 0, t_end = 1\<rparr>"

definition three_cell_zoid :: Zoid where
  "three_cell_zoid = \<lparr>base = [\<lparr>r_begin = 0, r_end = 3\<rparr>], slopes = [1], t_begin = 0, t_end = 1\<rparr>"

text \<open>Two zoids whose widths are no \<^verbatim>\<open>int\<close> values: a closing zoid without height over
  a line of \<open>3 * 10\<^sup>9\<close> cells, and a closing zoid of height 1 over a plane of
  \<open>2\<^sup>3\<^sup>1 + 10\<close> by 5 cells.\<close>

definition wide_line :: Zoid where
  "wide_line =
     \<lparr>base = [\<lparr>r_begin = 0, r_end = 3000000000\<rparr>], slopes = [1], t_begin = 0, t_end = 0\<rparr>"

definition wide_plane :: Zoid where
  "wide_plane =
     \<lparr>base = [\<lparr>r_begin = 0, r_end = 2147483658\<rparr>, \<lparr>r_begin = 0, r_end = 5\<rparr>],
      slopes = [1, 1], t_begin = 0, t_end = 1\<rparr>"

subsection \<open>Observing the scanner\<close>

text \<open>The cells that the scanner visits in one time row of a base, in the order of the
  visits: the scanner of \<^verbatim>\<open>Zoid::forEach\<close> (\<^verbatim>\<open>plain_scanner<dims-1>\<close>, started on
  the coordinate \<^verbatim>\<open>x\<close>) with an operation that records its position.\<close>

definition visited_cells :: "Base \<Rightarrow> Coordinate \<Rightarrow> Coordinate list" where
  "visited_cells b sz =
     plain_scanner (length b - 1) b (\<lambda>pos t s. s @ [pos]) (replicate (length b) 0) 0 sz []"

subsection \<open>The execution plan of the specification\<close>

text \<open>
  The plan as the specification describes it: the height of a layer is half the minimum
  width, the split point of dimension \<open>i\<close> is \<open>mid\<^sub>i = extent\<^sub>i - (extent\<^sub>i - width) / 2\<close>,
  and the zoid of the bit mask \<open>m\<close> takes \<open>[mid\<^sub>i, extent\<^sub>i)\<close> with slope \<open>-1\<close> where bit
  \<open>i\<close> of \<open>m\<close> is set and \<open>[0, mid\<^sub>i)\<close> with slope \<open>+1\<close> where it is clear. There is one
  layer of \<open>2\<^sup>N\<close> zoids for each interval \<open>[t\<^sub>0, min (t\<^sub>0 + height) steps)\<close>, with
  \<open>t\<^sub>0 = 0, height, 2 * height, \<dots>\<close> below \<open>steps\<close>.
\<close>

definition spec_height :: "Base \<Rightarrow> int" where
  "spec_height b = getMinimumWidth b sdiv 2"

definition spec_mid :: "Base \<Rightarrow> nat \<Rightarrow> int" where
  "spec_mid b i = Base_getWidth b i - (Base_getWidth b i - getMinimumWidth b) sdiv 2"

definition spec_zoid :: "Base \<Rightarrow> int \<Rightarrow> int \<Rightarrow> nat \<Rightarrow> Zoid" where
  "spec_zoid b t0 t1 m =
     \<lparr>base = map (\<lambda>i. if bit m i
                        then \<lparr>r_begin = spec_mid b i, r_end = Base_getWidth b i\<rparr>
                        else \<lparr>r_begin = 0, r_end = spec_mid b i\<rparr>) [0..<length b],
      slopes = map (\<lambda>i. if bit m i then - 1 else 1) [0..<length b],
      t_begin = t0, t_end = t1\<rparr>"

definition spec_layer :: "Base \<Rightarrow> int \<Rightarrow> int \<Rightarrow> layer_plan" where
  "spec_layer b steps t0 =
     map (spec_zoid b t0 (min (t0 + spec_height b) steps)) [0..<2 ^ length b]"

definition spec_layer_count :: "Base \<Rightarrow> int \<Rightarrow> nat" where
  "spec_layer_count b steps = nat ((steps + spec_height b - 1) div spec_height b)"

definition spec_plan :: "Base \<Rightarrow> int \<Rightarrow> ExecutionPlan" where
  "spec_plan b steps =
     map (\<lambda>k. spec_layer b steps (int k * spec_height b)) [0..<spec_layer_count b steps]"

subsection \<open>Schedules of the parallel recursive strategy\<close>

text \<open>The schedules that \<^verbatim>\<open>runParallel(even,odd,size)\<close> admits for the plan of a
  container and a number of steps.\<close>

definition parallel_recursive_schedule ::
  "'v container \<Rightarrow> int \<Rightarrow> (int \<times> Coordinate) list \<Rightarrow> bool"
where
  "parallel_recursive_schedule a steps s \<longleftrightarrow>
     (\<exists>exec_plan. create (full (csize a)) steps = Some exec_plan \<and>
        runParallel_schedule (Base_extend (full (csize a))) exec_plan s)"

subsection \<open>The sweeps of a stencil\<close>

text \<open>
  What the strategies are to compute: a sweep replaces every cell \<open>p\<close> of a container by
  \<open>update t p\<close> of the container before the sweep, and \<open>run_steps update t0 a n\<close> makes
  \<open>n\<close> sweeps, for the times \<open>t0, t0 + 1, \<dots>\<close>. An update function can read no more of a
  container than its size and the cells of its index space; \<open>reads_cells\<close> says so.
\<close>

definition sweep :: "'v Update \<Rightarrow> int \<Rightarrow> 'v container \<Rightarrow> 'v container" where
  "sweep update t V = \<lparr>csize = csize V, cell = (\<lambda>p. update t p V)\<rparr>"

fun run_steps :: "'v Update \<Rightarrow> int \<Rightarrow> 'v container \<Rightarrow> nat \<Rightarrow> 'v container" where
  "run_steps update t0 a 0 = a"
| "run_steps update t0 a (Suc n) = sweep update (t0 + int n) (run_steps update t0 a n)"

definition reads_cells :: "'v Update \<Rightarrow> bool" where
  "reads_cells update \<longleftrightarrow>
     (\<forall>t p V V'. same_contents V V' \<longrightarrow> update t p V = update t p V')"

text \<open>The container that \<^verbatim>\<open>x\<close> points to, and the invariant that both containers
  have the size of the grid.\<close>

definition read_buffer :: "'v iter_state \<Rightarrow> 'v container" where
  "read_buffer st = (if x_at_a st then cont_a st else cont_b st)"

definition sized :: "Coordinate \<Rightarrow> 'v iter_state \<Rightarrow> bool" where
  "sized sz st \<longleftrightarrow> csize (cont_a st) = sz \<and> csize (cont_b st) = sz"

text \<open>An update function that reads and increments the cell it is asked for.\<close>

definition increment_cell :: "int Update" where
  "increment_cell t p V = (if p \<in> set (indices (csize V)) then cell V p + 1 else 0)"

subsection \<open>Example stencils\<close>

text \<open>A line of eight cells holding 0 to 7, and an update function that copies the cell
  two places to the left on the circular line: it reads beyond the neighbours of its
  cell.\<close>

definition line8 :: "int container" where
  "line8 = \<lparr>csize = [8], cell = (\<lambda>p. hd p)\<rparr>"

definition copy_two_left :: "int Update" where
  "copy_two_left t p V =
     (let q = [(hd p - 2) mod hd (csize V)]
      in if q \<in> set (indices (csize V)) then cell V q else 0)"

text \<open>Containers of one cell and of two cells on a line; every cell holds 5.\<close>

definition one_cell :: "int container" where
  "one_cell = \<lparr>csize = [1], cell = (\<lambda>p. 5)\<rparr>"

definition two_cells :: "int container" where
  "two_cells = \<lparr>csize = [2], cell = (\<lambda>p. 5)\<rparr>"

subsection \<open>Local update functions and the state of a schedule\<close>

text \<open>
  An update function is local when its value for a cell depends on no more than the
  neighbours of the cell (the cell itself among them). \<open>buffer_of t\<close> is the container
  that the invocations of time \<open>t\<close> read: \<^verbatim>\<open>a\<close> at even and \<^verbatim>\<open>b\<close> at odd times.
  A set of invocations is closed when it holds, with an invocation, the invocations of
  the time before on the neighbours. \<open>schedule_inv\<close> is the invariant of a schedule
  whose invocations so far are \<open>D\<close>: the state of a cell at time \<open>t\<close> stands in the
  container of \<open>t\<close> from the invocation that computes it to the invocation of \<open>t + 1\<close>,
  which overwrites it.
\<close>

definition local_update :: "Coordinate \<Rightarrow> 'v Update \<Rightarrow> bool" where
  "local_update sz update \<longleftrightarrow>
     (\<forall>t p V V'. csize V = sz \<and> csize V' = sz \<and>
        (\<forall>q\<in>set (indices sz). neighbours sz p q \<longrightarrow> cell V q = cell V' q) \<longrightarrow>
        update t p V = update t p V')"

definition buffer_of :: "int \<Rightarrow> 'v container \<times> 'v container \<Rightarrow> 'v container" where
  "buffer_of t ab = (if even t then fst ab else snd ab)"

definition closed_events :: "Coordinate \<Rightarrow> (int \<times> Coordinate) set \<Rightarrow> bool" where
  "closed_events sz D \<longleftrightarrow>
     (\<forall>t q q'. (t, q) \<in> D \<and> 0 < t \<and> q' \<in> set (indices sz) \<and> neighbours sz q q' \<longrightarrow>
        (t - 1, q') \<in> D)"

definition schedule_inv ::
  "'v Update \<Rightarrow> 'v container \<Rightarrow> Coordinate \<Rightarrow> (int \<times> Coordinate) set \<Rightarrow>
   'v container \<times> 'v container \<Rightarrow> bool"
where
  "schedule_inv update a0 sz D ab \<longleftrightarrow>
     csize (fst ab) = sz \<and> csize (snd ab) = sz \<and>
     (\<forall>p\<in>set (indices sz). \<forall>t\<ge>0.
        (t = 0 \<or> (t - 1, p) \<in> D) \<and> (t + 1, p) \<notin> D \<longrightarrow>
        cell (buffer_of t ab) p = cell (run_steps update 0 a0 (nat t)) p)"

text \<open>One invocation \<open>(t, pos)\<close> with the adapters of \<^verbatim>\<open>process\<close>.\<close>

definition exec_call ::
  "'v Update \<Rightarrow> int \<times> Coordinate \<Rightarrow> 'v container \<times> 'v container \<Rightarrow> 'v container \<times> 'v container"
where
  "exec_call update call ab =
     (if odd (fst call) then odd_op update (snd call) (fst call) ab
      else even_op update (snd call) (fst call) ab)"

subsection \<open>The invocations of a zoid, written out\<close>

text \<open>The positions that the loop of the scanner over one axis visits, the rows of a
  zoid (its base after \<open>\<tau>\<close> time steps), the cells of a row in the order of the scanner,
  and the invocations of \<^verbatim>\<open>Zoid::forEach\<close> row by row.\<close>

definition axis_cells :: "range_t \<Rightarrow> int \<Rightarrow> int list" where
  "axis_cells rg len =
     (let from1 = (if r_begin rg > len then r_begin rg - len else r_begin rg);
          to1 = (if r_begin rg > len then r_end rg - len else r_end rg);
          limit = min to1 len
      in [from1..limit - 1] @ (if to1 \<le> len then [] else [0..to1 - len - 1]))"

definition row_base :: "Zoid \<Rightarrow> int \<Rightarrow> Base" where
  "row_base z \<tau> =
     map (\<lambda>i. \<lparr>r_begin = r_begin (base z ! i) + slopes z ! i * \<tau>,
                r_end = r_end (base z ! i) - slopes z ! i * \<tau>\<rparr>) [0..<length (base z)]"

definition row_cells :: "Base \<Rightarrow> Coordinate \<Rightarrow> Coordinate list" where
  "row_cells b sz = product_lists (map (\<lambda>i. axis_cells (b ! i) (sz ! i)) [0..<length b])"

definition zoid_calls :: "Zoid \<Rightarrow> Coordinate \<Rightarrow> (int \<times> Coordinate) list" where
  "zoid_calls z limits =
     concat (map (\<lambda>t. map (Pair (signed_take_bit 31 t))
                           (row_cells (row_base z (t - t_begin z)) limits))
                 [t_begin z..t_end z - 1])"

text \<open>The invocations of \<^verbatim>\<open>runSequential\<close>: layer by layer, the zoids in the order of
  the sorted task indices.\<close>

definition runSequential_calls ::
  "nat list \<Rightarrow> ExecutionPlan \<Rightarrow> Coordinate \<Rightarrow> (int \<times> Coordinate) list"
where
  "runSequential_calls order layers limits =
     concat (map (\<lambda>cur. concat (map (\<lambda>idx. forEach_calls (cur ! idx) limits) order)) layers)"

subsection \<open>Order of the elements of a list\<close>

text \<open>\<open>precedes xs x y\<close>: an occurrence of \<open>x\<close> stands before an occurrence of \<open>y\<close>.\<close>

definition precedes :: "'a list \<Rightarrow> 'a \<Rightarrow> 'a \<Rightarrow> bool" where
  "precedes xs x y \<longleftrightarrow> (\<exists>i j. i < j \<and> j < length xs \<and> xs ! i = x \<and> xs ! j = y)"

section \<open>Properties\<close>

subsection \<open>Truncating division by two\<close>

lemma sdiv2_cases:
  fixes k :: int
  shows "k sdiv 2 = k div 2 \<or> (k < 0 \<and> odd k \<and> k sdiv 2 = k div 2 + 1)"
  by (auto simp: signed_divide_int_eq_divide_int sgn_if)

lemma sdiv2_nonneg: "0 \<le> (k::int) \<Longrightarrow> k sdiv 2 = k div 2"
  using sdiv2_cases [of k] by auto

lemma sdiv2_between:
  fixes b e :: int
  assumes "b + 2 \<le> e"
  shows "b < (b + e) sdiv 2" and "(b + e) sdiv 2 < e"
  using assms sdiv2_cases [of "b + e"] by presburger+

lemma sdiv2_half:
  fixes h :: int
  assumes "2 \<le> h"
  shows "1 \<le> h sdiv 2" and "h sdiv 2 < h"
  using assms sdiv2_cases [of h] by presburger+

subsection \<open>The space split\<close>

lemma range_update_end:
  "(rg :: range_t)\<lparr>r_end := x\<rparr> = \<lparr>r_begin = r_begin rg, r_end = x\<rparr>"
  by simp

lemma range_update_begin:
  "(rg :: range_t)\<lparr>r_begin := x\<rparr> = \<lparr>r_begin = x, r_end = r_end rg\<rparr>"
  by simp

lemma split_dim_fold_lt:
  "fst acc < n \<Longrightarrow> set xs \<subseteq> {0..<n} \<Longrightarrow>
   fst (fold (\<lambda>i (max_dim, max_width).
                let width = Zoid_getWidth z i
                in if width > max_width then (i, width) else (max_dim, max_width)) xs acc) < n"
  by (induction xs arbitrary: acc) (auto simp: Let_def split: prod.splits)

lemma split_dim_lt: "0 < length (base z) \<Longrightarrow> split_dim z < length (base z)"
  unfolding split_dim_def by (rule split_dim_fold_lt) auto

lemma isSpaceSplitable_dims: "isSpaceSplitable z \<Longrightarrow> 0 < length (base z)"
  by (auto simp: isSpaceSplitable_def list_ex_iff)

text \<open>
  Claim C7. For a zoid that can be split in space, \<^verbatim>\<open>splitSpace\<close> takes the dimension
  \<open>d\<close> that its search loop returns and the centre \<open>(b\<^sub>d + e\<^sub>d) / 2\<close> of the base there;
  \<open>left\<close> and \<open>right\<close> are the centre minus and plus the height (what \<^verbatim>\<open>getHeight\<close>
  returns) when the slope is \<open>-1\<close> and the centre itself when the slope is \<open>+1\<close>. The fragment \<open>l\<close> is the zoid with the end
  of its range \<open>d\<close> set to \<open>left\<close>, \<open>c\<close> is the zoid with the range \<open>[left, right)\<close> and the
  slope of \<open>d\<close> negated, \<open>r\<close> is the zoid with the begin of its range \<open>d\<close> set to \<open>right\<close>,
  and \<open>opening\<close> tells whether the slope is \<open>-1\<close>. Nothing else differs from the zoid.
\<close>

theorem splitSpace_fragments:
  assumes "isSpaceSplitable z"
    and "slopes z ! split_dim z = - 1 \<or> slopes z ! split_dim z = 1"
  shows "let d = split_dim z;
             b = r_begin (base z ! d);
             e = r_end (base z ! d);
             center = (b + e) sdiv 2;
             left = (if slopes z ! d = - 1 then center - getHeight z else center);
             right = (if slopes z ! d = - 1 then center + getHeight z else center);
             res = splitSpace z
         in d < length (base z) \<and>
            part_l res = z\<lparr>base := (base z)[d := \<lparr>r_begin = b, r_end = left\<rparr>]\<rparr> \<and>
            part_c res = z\<lparr>base := (base z)[d := \<lparr>r_begin = left, r_end = right\<rparr>],
                           slopes := (slopes z)[d := - (slopes z ! d)]\<rparr> \<and>
            part_r res = z\<lparr>base := (base z)[d := \<lparr>r_begin = right, r_end = e\<rparr>]\<rparr> \<and>
            part_opening res = (slopes z ! d = - 1)"
proof -
  have d: "split_dim z < length (base z)"
    by (rule split_dim_lt [OF isSpaceSplitable_dims [OF assms(1)]])
  from assms(2) show ?thesis
    using d by (auto simp: Let_def splitSpace_def range_update_end range_update_begin)
qed

theorem splitSpace_fragments_witness:
  "let z = \<lparr>base = [\<lparr>r_begin = 0, r_end = 10\<rparr>], slopes = [- 1], t_begin = 0, t_end = 2\<rparr>
   in isSpaceSplitable z \<and> slopes z ! split_dim z = - 1 \<and>
      part_l (splitSpace z) =
        \<lparr>base = [\<lparr>r_begin = 0, r_end = 3\<rparr>], slopes = [- 1], t_begin = 0, t_end = 2\<rparr> \<and>
      part_c (splitSpace z) =
        \<lparr>base = [\<lparr>r_begin = 3, r_end = 7\<rparr>], slopes = [1], t_begin = 0, t_end = 2\<rparr> \<and>
      part_r (splitSpace z) =
        \<lparr>base = [\<lparr>r_begin = 7, r_end = 10\<rparr>], slopes = [- 1], t_begin = 0, t_end = 2\<rparr> \<and>
      part_opening (splitSpace z)"
proof -
  let ?z = "\<lparr>base = [\<lparr>r_begin = 0, r_end = 10\<rparr>], slopes = [- 1], t_begin = 0, t_end = 2\<rparr>"
  have d: "split_dim ?z = 0"
    by (simp add: split_dim_def Zoid_getWidth_def Base_getWidth_def getHeight_def)
  have s: "isSpaceSplitable ?z"
    by (simp add: isSpaceSplitable_def isSplitable_def Zoid_getWidth_def Base_getWidth_def
        getHeight_def)
  have o: "slopes ?z ! split_dim ?z = - 1 \<or> slopes ?z ! split_dim ?z = 1"
    by (simp add: d)
  have c: "(10::int) sdiv 2 = 5" by (simp add: sdiv2_nonneg)
  from splitSpace_fragments [OF s o] show ?thesis
    using s by (simp add: Let_def d getHeight_def c)
qed

text \<open>
  The search loop of \<^verbatim>\<open>splitSpace\<close> compares the widths as \<^verbatim>\<open>int\<close> values. On the
  wide plane the width \<open>2\<^sup>3\<^sup>1 + 10\<close> of dimension 0 is read as a negative number, and
  the split dimension is dimension 1, of width 5.
\<close>

lemma narrow_wide_plane: "signed_take_bit 31 (2147483658 :: int) = - 2147483638"
  by (simp add: signed_take_bit_eq_take_bit_minus take_bit_eq_mod bit_iff_odd)

lemma split_dim_wide_plane:
  "Zoid_getWidth wide_plane 0 = - 2147483638 \<and> Zoid_getWidth wide_plane 1 = 5 \<and>
   isSpaceSplitable wide_plane \<and> split_dim wide_plane = 1"
proof -
  have h: "getHeight wide_plane = 1"
    by (simp add: wide_plane_def getHeight_def)
  have w0: "Zoid_getWidth wide_plane 0 = - 2147483638"
    by (simp add: Zoid_getWidth_def Base_getWidth_def wide_plane_def narrow_wide_plane)
  have w1: "Zoid_getWidth wide_plane (Suc 0) = 5"
    by (simp add: Zoid_getWidth_def Base_getWidth_def wide_plane_def)
  have l: "[0..<length (base wide_plane)] = [0, Suc 0]"
    by (simp add: wide_plane_def upt_rec)
  have s: "isSpaceSplitable wide_plane"
    by (simp add: isSpaceSplitable_def isSplitable_def h w0 w1 l)
  have d: "split_dim wide_plane = 1"
    by (simp add: split_dim_def l w0 w1)
  from w0 w1 s d show ?thesis by simp
qed

subsection \<open>The splits of the recursive scheduler get smaller\<close>

lemma extend_eq_map: "Base_extend b = map (\<lambda>rg. r_end rg - r_begin rg) b"
  by (rule nth_equalityI) (simp_all add: Base_extend_def Base_getWidth_def)

lemma sum_list_update_int:
  fixes xs :: "int list"
  shows "d < length xs \<Longrightarrow> sum_list (xs[d := x]) = sum_list xs + x - xs ! d"
  by (induction xs arbitrary: d) (auto split: nat.splits)

lemma total_width_update:
  assumes d: "d < length b"
  shows "total_width (b[d := rg]) = total_width b + (r_end rg - r_begin rg) - Base_getWidth b d"
proof -
  let ?ws = "map (\<lambda>rg. r_end rg - r_begin rg) b"
  have "sum_list (?ws[d := r_end rg - r_begin rg]) =
        sum_list ?ws + (r_end rg - r_begin rg) - ?ws ! d"
    using d by (simp add: sum_list_update_int)
  then show ?thesis
    using d by (simp add: total_width_def extend_eq_map map_update Base_getWidth_def)
qed

lemma fold_max_ge:
  fixes f :: "nat \<Rightarrow> int"
  shows "x \<le> fold (\<lambda>i res. max res (f i)) xs a \<longleftrightarrow> x \<le> a \<or> (\<exists>i\<in>set xs. x \<le> f i)"
  by (induction xs arbitrary: a) (auto simp: le_max_iff_disj)

lemma getMaximumWidth_ge:
  assumes "0 < length b"
  shows "x \<le> getMaximumWidth b \<longleftrightarrow> (\<exists>i<length b. x \<le> Base_getWidth b i)"
proof -
  have "x \<le> getMaximumWidth b \<longleftrightarrow>
        x \<le> Base_getWidth b 0 \<or> (\<exists>i\<in>{1..<length b}. x \<le> Base_getWidth b i)"
    by (simp add: getMaximumWidth_def fold_max_ge)
  also have "\<dots> \<longleftrightarrow> (\<exists>i<length b. x \<le> Base_getWidth b i)"
  proof
    assume "x \<le> Base_getWidth b 0 \<or> (\<exists>i\<in>{1..<length b}. x \<le> Base_getWidth b i)"
    then show "\<exists>i<length b. x \<le> Base_getWidth b i"
      using assms by auto
  next
    assume "\<exists>i<length b. x \<le> Base_getWidth b i"
    then obtain i where i: "i < length b" "x \<le> Base_getWidth b i" by blast
    show "x \<le> Base_getWidth b 0 \<or> (\<exists>i\<in>{1..<length b}. x \<le> Base_getWidth b i)"
    proof (cases "i = 0")
      case True
      with i show ?thesis by simp
    next
      case False
      with i have "i \<in> {1..<length b}" by simp
      with i show ?thesis by blast
    qed
  qed
  finally show ?thesis .
qed

text \<open>The search loop of \<^verbatim>\<open>splitSpace\<close> ends with a dimension of the widest shadow.\<close>

lemma split_dim_fold_max:
  fixes f :: "nat \<Rightarrow> int"
  assumes "fold (\<lambda>i (max_dim, max_width).
                   let width = f i
                   in if width > max_width then (i, width) else (max_dim, max_width))
                xs (d0, w0) = (d, w)"
  shows "w0 \<le> w \<and> (\<forall>i\<in>set xs. f i \<le> w) \<and> (w0 < w \<longrightarrow> d \<in> set xs \<and> f d = w) \<and>
         (w = w0 \<longrightarrow> d = d0)"
  using assms
proof (induction xs arbitrary: d0 w0)
  case Nil
  then show ?case by simp
next
  case (Cons x xs)
  show ?case
  proof (cases "f x > w0")
    case True
    with Cons.prems
    have "fold (\<lambda>i (max_dim, max_width).
                  let width = f i
                  in if width > max_width then (i, width) else (max_dim, max_width))
               xs (x, f x) = (d, w)"
      by (simp add: Let_def)
    from Cons.IH [OF this] True show ?thesis by auto
  next
    case False
    with Cons.prems
    have "fold (\<lambda>i (max_dim, max_width).
                  let width = f i
                  in if width > max_width then (i, width) else (max_dim, max_width))
               xs (d0, w0) = (d, w)"
      by (simp add: Let_def)
    from Cons.IH [OF this] False show ?thesis by auto
  qed
qed

lemma split_dim_max:
  assumes "i < length (base z)" and "0 < Zoid_getWidth z i"
  shows "Zoid_getWidth z i \<le> Zoid_getWidth z (split_dim z)"
proof -
  obtain d w where dw:
    "fold (\<lambda>i (max_dim, max_width).
             let width = Zoid_getWidth z i
             in if width > max_width then (i, width) else (max_dim, max_width))
          [0..<length (base z)] (0, 0) = (d, w)"
    by (cases "fold (\<lambda>i (max_dim, max_width).
                       let width = Zoid_getWidth z i
                       in if width > max_width then (i, width) else (max_dim, max_width))
                    [0..<length (base z)] (0, 0)")
  from split_dim_fold_max [OF dw] assms
  have "Zoid_getWidth z i \<le> w" and "0 < w \<longrightarrow> Zoid_getWidth z d = w" by auto
  moreover have "split_dim z = d"
    by (simp add: split_dim_def dw)
  ultimately show ?thesis using assms by auto
qed

text \<open>On a zoid whose sizes are \<^verbatim>\<open>int\<close> values the conversions change nothing.\<close>

lemma narrow_exact:
  fixes k :: int
  shows "- (2 ^ 31) \<le> k \<Longrightarrow> k < 2 ^ 31 \<Longrightarrow> signed_take_bit 31 k = k"
  by (rule signed_take_bit_int_eq_self) simp_all

lemma size_t_exact:
  fixes k :: int
  shows "0 \<le> k \<Longrightarrow> k < 2 ^ 64 \<Longrightarrow> take_bit 64 k = k"
  by (simp add: take_bit_int_eq_self)

lemma getHeight_exact:
  assumes "0 \<le> t_end z - t_begin z" and "t_end z - t_begin z < 2 ^ 31"
  shows "getHeight z = t_end z - t_begin z"
proof -
  from assms have "take_bit 64 (t_end z - t_begin z) = t_end z - t_begin z"
    by (intro size_t_exact) simp_all
  with assms show ?thesis
    by (simp add: getHeight_def narrow_exact)
qed

lemma int_sized_getHeight:
  assumes "int_sized z"
  shows "getHeight z = t_end z - t_begin z" and "0 \<le> getHeight z"
    and "4 * getHeight z < 2 ^ 31"
proof -
  from assms have b: "0 \<le> t_end z - t_begin z" "4 * (t_end z - t_begin z) < 2 ^ 31"
    by (simp_all add: int_sized_def)
  then show h: "getHeight z = t_end z - t_begin z"
    by (intro getHeight_exact) simp_all
  from b show "0 \<le> getHeight z" "4 * getHeight z < 2 ^ 31"
    by (simp_all add: h)
qed

lemma int_sized_getWidth:
  assumes s: "int_sized z" and i: "i < length (base z)"
  shows "Zoid_getWidth z i =
         (if slopes z ! i < 0 then Base_getWidth (base z) i + 2 * getHeight z
          else Base_getWidth (base z) i)"
proof -
  note h = int_sized_getHeight [OF s]
  from s i have w: "- (2 ^ 31) \<le> Base_getWidth (base z) i"
    "Base_getWidth (base z) i + 2 * getHeight z < 2 ^ 31"
    by (simp_all add: int_sized_def h(1))
  with h(2) have "signed_take_bit 31 (Base_getWidth (base z) i) = Base_getWidth (base z) i"
    by (intro narrow_exact) simp_all
  moreover from w h(2)
  have "signed_take_bit 31 (Base_getWidth (base z) i + 2 * getHeight z) =
        Base_getWidth (base z) i + 2 * getHeight z"
    by (intro narrow_exact) simp_all
  ultimately show ?thesis
    by (simp add: Zoid_getWidth_def Let_def)
qed

lemma int_sized_isSplitable:
  assumes s: "int_sized z"
  shows "isSplitable z i \<longleftrightarrow> 4 * getHeight z < Zoid_getWidth z i"
proof -
  note h = int_sized_getHeight [OF s]
  from h(2,3) have "signed_take_bit 31 (4 * getHeight z) = 4 * getHeight z"
    by (intro narrow_exact) simp_all
  then show ?thesis by (simp add: isSplitable_def)
qed

lemma getHeight_times:
  "t_begin z' = t_begin z \<Longrightarrow> t_end z' = t_end z \<Longrightarrow> getHeight z' = getHeight z"
  by (simp add: getHeight_def)

lemma splittable_split_dim:
  assumes sp: "isSpaceSplitable z" and s: "int_sized z"
  shows "isSplitable z (split_dim z)"
proof -
  note h = int_sized_getHeight [OF s]
  from sp obtain i where i: "i < length (base z)" "isSplitable z i"
    by (auto simp: isSpaceSplitable_def list_ex_iff)
  then have "0 < Zoid_getWidth z i"
    using h(2) by (simp add: int_sized_isSplitable [OF s])
  from split_dim_max [OF i(1) this] i(2) show ?thesis
    by (simp add: int_sized_isSplitable [OF s])
qed

lemma split_dim_base_width:
  assumes nt: "\<not> isTerminal z" and sp: "isSpaceSplitable z" and s: "int_sized z"
  shows "3 \<le> Base_getWidth (base z) (split_dim z)"
    and "slopes z ! split_dim z < 0 \<Longrightarrow>
         2 * getHeight z < Base_getWidth (base z) (split_dim z)"
    and "\<not> slopes z ! split_dim z < 0 \<Longrightarrow>
         4 * getHeight z < Base_getWidth (base z) (split_dim z)"
proof -
  let ?d = "split_dim z"
  note h = int_sized_getHeight [OF s]
  have len: "0 < length (base z)" by (rule isSpaceSplitable_dims [OF sp])
  have d: "?d < length (base z)" by (rule split_dim_lt [OF len])
  have "isSplitable z ?d" by (rule splittable_split_dim [OF sp s])
  then have sd: "4 * getHeight z < Zoid_getWidth z ?d"
    by (simp add: int_sized_isSplitable [OF s])
  show o: "slopes z ! ?d < 0 \<Longrightarrow> 2 * getHeight z < Base_getWidth (base z) ?d"
    using sd by (simp add: int_sized_getWidth [OF s d])
  show c: "\<not> slopes z ! ?d < 0 \<Longrightarrow> 4 * getHeight z < Base_getWidth (base z) ?d"
    using sd by (simp add: int_sized_getWidth [OF s d])
  show "3 \<le> Base_getWidth (base z) ?d"
  proof (cases "getHeight z = 0")
    case False
    with h(2) have "1 \<le> getHeight z" by simp
    with o c show ?thesis by (cases "slopes z ! ?d < 0") auto
  next
    case True
    with nt have "3 \<le> getMaximumWidth (base z)"
      by (simp add: isTerminal_def)
    then obtain i where i: "i < length (base z)" "3 \<le> Base_getWidth (base z) i"
      using getMaximumWidth_ge [OF len] by blast
    have w: "Zoid_getWidth z j = Base_getWidth (base z) j" if "j < length (base z)" for j
      using True by (simp add: int_sized_getWidth [OF s that])
    from i have "0 < Zoid_getWidth z i" by (simp add: w)
    from split_dim_max [OF i(1) this] i(2) show ?thesis by (simp add: w [OF i(1)] w [OF d])
  qed
qed

text \<open>The two parts of a time split of a zoid of height two or more.\<close>

lemma splitTime_heights:
  assumes s: "int_sized z" and h2: "2 \<le> getHeight z"
  shows "getHeight (part_bottom (splitTime z)) < getHeight z"
    and "getHeight (part_top (splitTime z)) < getHeight z"
proof -
  let ?H = "t_end z - t_begin z"
  let ?s = "getHeight z sdiv 2"
  note h = int_sized_getHeight [OF s]
  note half = sdiv2_half [OF h2]
  from s have t: "0 \<le> t_begin z" "t_end z < 2 ^ 64" "4 * ?H < 2 ^ 31"
    by (simp_all add: int_sized_def)
  from half t h(1) have "0 \<le> t_begin z + ?s" "t_begin z + ?s < 2 ^ 64" by simp_all
  then have m: "take_bit 64 (t_begin z + ?s) = t_begin z + ?s"
    by (rule size_t_exact)
  have tb: "t_begin (part_bottom (splitTime z)) = t_begin z"
    "t_end (part_bottom (splitTime z)) = t_begin z + ?s"
    "t_begin (part_top (splitTime z)) = t_begin z + ?s"
    "t_end (part_top (splitTime z)) = t_end z"
    by (simp_all add: splitTime_def Let_def m)
  have "getHeight (part_bottom (splitTime z)) = ?s"
    using getHeight_exact [of "part_bottom (splitTime z)"] half t h(1) by (simp add: tb)
  with half show "getHeight (part_bottom (splitTime z)) < getHeight z" by simp
  have "getHeight (part_top (splitTime z)) = ?H - ?s"
    using getHeight_exact [of "part_top (splitTime z)"] half t h(1) by (simp add: tb)
  with half h(1) show "getHeight (part_top (splitTime z)) < getHeight z" by simp
qed

text \<open>
  Claim C3, as the code has it. Let a zoid with at least one dimension whose sizes are
  \<^verbatim>\<open>int\<close> values be not terminal, and let it be splittable in space or of a height
  other than 1. Then every zoid that the recursive scheduler passes on (bottom and top
  of \<^verbatim>\<open>splitTime\<close>, or the three fragments of \<^verbatim>\<open>splitSpace\<close>) is strictly smaller in
  the lexicographic order on the height and the sum of the widths of the base.
\<close>

theorem split_strictly_smaller:
  assumes nt: "\<not> isTerminal z" and s: "int_sized z"
    and len: "0 < length (base z)"
    and ns: "isSpaceSplitable z \<or> getHeight z \<noteq> 1"
  shows "\<forall>z'\<in>set (pforEach_rec_calls z). smaller_height_totalwidth z' z"
proof (cases "isSpaceSplitable z")
  case False
  note h = int_sized_getHeight [OF s]
  have "getHeight z \<noteq> 0"
  proof
    assume z: "getHeight z = 0"
    from nt z have "3 \<le> getMaximumWidth (base z)" by (simp add: isTerminal_def)
    then obtain i where i: "i < length (base z)" "3 \<le> Base_getWidth (base z) i"
      using getMaximumWidth_ge [OF len] by blast
    then have "isSplitable z i"
      using z by (simp add: int_sized_isSplitable [OF s] int_sized_getWidth [OF s])
    with i(1) False show False
      by (auto simp: isSpaceSplitable_def list_ex_iff)
  qed
  with h(2) ns False have h2: "2 \<le> getHeight z" by simp
  from splitTime_heights [OF s h2] show ?thesis
    using False
    by (simp add: pforEach_rec_calls_def Let_def smaller_height_totalwidth_def)
next
  case True
  let ?d = "split_dim z"
  let ?b = "r_begin (base z ! ?d)"
  let ?e = "r_end (base z ! ?d)"
  note h = int_sized_getHeight [OF s]
  have d: "?d < length (base z)"
    by (rule split_dim_lt [OF len])
  note w = split_dim_base_width [OF nt True s]
  from w(1) have "?b + 2 \<le> ?e" by (simp add: Base_getWidth_def)
  note c = sdiv2_between [OF this]
  have hl: "getHeight (part_l (splitSpace z)) = getHeight z"
    by (rule getHeight_times) (simp_all add: splitSpace_def Let_def)
  have hr: "getHeight (part_r (splitSpace z)) = getHeight z"
    by (rule getHeight_times) (simp_all add: splitSpace_def Let_def)
  have hc: "getHeight (part_c (splitSpace z)) = getHeight z"
    by (rule getHeight_times) (simp_all add: splitSpace_def Let_def)
  have l: "total_width (base (part_l (splitSpace z))) < total_width (base z)"
    using d c w h(2)
    by (auto simp: splitSpace_def Let_def total_width_update Base_getWidth_def)
  have r: "total_width (base (part_r (splitSpace z))) < total_width (base z)"
    using d c w h(2)
    by (auto simp: splitSpace_def Let_def total_width_update Base_getWidth_def)
  have m: "total_width (base (part_c (splitSpace z))) < total_width (base z)"
    using d c w h(2)
    by (auto simp: splitSpace_def Let_def total_width_update Base_getWidth_def)
  from l r m True show ?thesis
    by (simp add: pforEach_rec_calls_def Let_def smaller_height_totalwidth_def hl hr hc)
qed

theorem split_strictly_smaller_witness:
  "let z = \<lparr>base = [\<lparr>r_begin = 0, r_end = 10\<rparr>], slopes = [- 1], t_begin = 0, t_end = 2\<rparr>
   in \<not> isTerminal z \<and> int_sized z \<and> isSpaceSplitable z \<and>
      pforEach_rec_calls z = [part_c (splitSpace z), part_l (splitSpace z), part_r (splitSpace z)] \<and>
      smaller_height_totalwidth (part_c (splitSpace z)) z \<and>
      smaller_height_totalwidth (part_l (splitSpace z)) z \<and>
      smaller_height_totalwidth (part_r (splitSpace z)) z"
proof -
  let ?z = "\<lparr>base = [\<lparr>r_begin = 0, r_end = 10\<rparr>], slopes = [- 1], t_begin = 0, t_end = 2\<rparr>"
  have i: "int_sized ?z"
    by (simp add: int_sized_def Base_getWidth_def)
  have h: "getHeight ?z = 2"
    using int_sized_getHeight(1) [OF i] by simp
  have w: "Zoid_getWidth ?z 0 = 14"
    using int_sized_getWidth [OF i, of 0] by (simp add: h Base_getWidth_def)
  have nt: "\<not> isTerminal ?z"
    by (simp add: isTerminal_def h)
  have s: "isSpaceSplitable ?z"
    by (simp add: isSpaceSplitable_def int_sized_isSplitable [OF i] h w)
  have d: "split_dim ?z = 0"
    by (simp add: split_dim_def w)
  have calls: "pforEach_rec_calls ?z =
      [part_c (splitSpace ?z), part_l (splitSpace ?z), part_r (splitSpace ?z)]"
    using s by (simp add: pforEach_rec_calls_def Let_def splitSpace_def d)
  from split_strictly_smaller [of ?z] nt s i
  have "\<forall>z'\<in>set (pforEach_rec_calls ?z). smaller_height_totalwidth z' ?z"
    by simp
  then show ?thesis
    using nt s i calls by (simp add: Let_def)
qed

text \<open>
  The order of the specification, on the height and the maximum width of the base, does
  not decrease when a zoid of several dimensions is split in space: the split changes
  one dimension, and another may hold the maximum. The left fragment of the square zoid
  has the height and the maximum width of the square zoid.
\<close>

theorem split_maxwidth_counterexample:
  "\<not> isTerminal square_zoid \<and> isSpaceSplitable square_zoid \<and>
   part_l (splitSpace square_zoid) \<in> set (pforEach_rec_calls square_zoid) \<and>
   \<not> smaller_height_maxwidth (part_l (splitSpace square_zoid)) square_zoid"
proof -
  have s: "isSpaceSplitable square_zoid"
    by (simp add: square_zoid_def isSpaceSplitable_def isSplitable_def Zoid_getWidth_def
        Base_getWidth_def getHeight_def)
  have d: "split_dim square_zoid = 0"
    by (simp add: square_zoid_def split_dim_def Zoid_getWidth_def Base_getWidth_def
        getHeight_def)
  have c: "(10::int) sdiv 2 = 5" by (simp add: sdiv2_nonneg)
  have l: "part_l (splitSpace square_zoid) =
      \<lparr>base = [\<lparr>r_begin = 0, r_end = 5\<rparr>, \<lparr>r_begin = 0, r_end = 10\<rparr>],
       slopes = [1, 1], t_begin = 0, t_end = 1\<rparr>"
    by (simp add: splitSpace_def d Let_def) (simp add: square_zoid_def c)
  have m: "getMaximumWidth (base square_zoid) = 10"
    by (simp add: square_zoid_def getMaximumWidth_def Base_getWidth_def)
  have "\<not> isTerminal square_zoid"
    by (simp add: isTerminal_def m)
  moreover have "part_l (splitSpace square_zoid) \<in> set (pforEach_rec_calls square_zoid)"
    using s by (simp add: pforEach_rec_calls_def Let_def)
  moreover have "\<not> smaller_height_maxwidth (part_l (splitSpace square_zoid)) square_zoid"
    unfolding l smaller_height_maxwidth_def
    by (simp add: m getHeight_def getMaximumWidth_def Base_getWidth_def)
       (simp add: square_zoid_def)
  ultimately show ?thesis using s by simp
qed

text \<open>
  A zoid of height 1 that is neither terminal nor splittable in space is split in time
  at \<open>1 / 2 = 0\<close>: the bottom is empty and the top is the zoid itself. The decomposing
  step case of \<^verbatim>\<open>pforEach\<close> makes no progress on the three-cell zoid.
\<close>

lemma splitTime_three_cell_zoid:
  "\<not> isTerminal three_cell_zoid \<and> \<not> isSpaceSplitable three_cell_zoid \<and>
   part_top (splitTime three_cell_zoid) = three_cell_zoid \<and>
   pforEach_rec_calls three_cell_zoid =
     [three_cell_zoid\<lparr>t_end := 0\<rparr>, three_cell_zoid]"
proof -
  have h: "(1::int) sdiv 2 = 0" by (simp add: sdiv2_nonneg)
  have s: "\<not> isSpaceSplitable three_cell_zoid"
    by (simp add: three_cell_zoid_def isSpaceSplitable_def isSplitable_def Zoid_getWidth_def
        Base_getWidth_def getHeight_def)
  have t: "\<not> isTerminal three_cell_zoid"
    by (simp add: three_cell_zoid_def isTerminal_def getMaximumWidth_def Base_getWidth_def)
  have p: "part_top (splitTime three_cell_zoid) = three_cell_zoid"
    by (simp add: three_cell_zoid_def splitTime_def getHeight_def h)
  have b: "part_bottom (splitTime three_cell_zoid) = three_cell_zoid\<lparr>t_end := 0\<rparr>"
    by (simp add: three_cell_zoid_def splitTime_def getHeight_def h)
  show ?thesis
    using s t p b by (simp add: pforEach_rec_calls_def Let_def)
qed

text \<open>
  The width of the wide line is read as a negative \<^verbatim>\<open>int\<close>: the zoid is neither
  terminal nor splittable in space, and both parts of its time split are the zoid
  itself.
\<close>

lemma narrow_wide_line: "signed_take_bit 31 (3000000000 :: int) = - 1294967296"
  by (simp add: signed_take_bit_eq_take_bit_minus take_bit_eq_mod bit_iff_odd)

lemma splitTime_wide_line:
  "\<not> isTerminal wide_line \<and> \<not> isSpaceSplitable wide_line \<and>
   pforEach_rec_calls wide_line = [wide_line, wide_line]"
proof -
  have h: "getHeight wide_line = 0"
    by (simp add: wide_line_def getHeight_def)
  have w: "Zoid_getWidth wide_line 0 = - 1294967296"
    by (simp add: Zoid_getWidth_def Base_getWidth_def wide_line_def narrow_wide_line)
  have l: "length (base wide_line) = 1" by (simp add: wide_line_def)
  have "\<not> isSplitable wide_line 0"
    by (simp add: isSplitable_def h w)
  then have s: "\<not> isSpaceSplitable wide_line"
    by (simp add: isSpaceSplitable_def l)
  have t: "\<not> isTerminal wide_line"
    by (simp add: wide_line_def isTerminal_def getMaximumWidth_def Base_getWidth_def)
  have d: "(0::int) sdiv 2 = 0" by (simp add: sdiv2_nonneg)
  have p: "splitTime wide_line = \<lparr>part_top = wide_line, part_bottom = wide_line\<rparr>"
    by (simp add: splitTime_def h d Let_def) (simp add: wide_line_def)
  show ?thesis
    using s t by (simp add: pforEach_rec_calls_def Let_def p)
qed

subsection \<open>The wrap-around of the scanner\<close>

lemma fold_snoc_map: "fold (\<lambda>p s. s @ [f p]) xs s0 = s0 @ map f xs"
  by (induction xs arbitrary: s0) auto

lemma upto_last_two: "[L - 2..L - 1] = [L - 2, L - 1]" for L :: int
  by (simp add: upto_rec1)

lemma upto_first_three: "[0..2::int] = [0, 1, 2]"
  by (simp add: upto_rec1)

text \<open>One row of the base \<open>[L - 2, L + 3)\<close> against the limit \<open>L\<close>: the scanner visits
  \<open>L - 2\<close> and \<open>L - 1\<close>, wraps, and visits 0, 1 and 2, whatever \<open>L\<close> is.\<close>

lemma visited_cells_wrap:
  "visited_cells [\<lparr>r_begin = L - 2, r_end = L + 3\<rparr>] [L] = [[L - 2], [L - 1], [0], [1], [2]]"
  by (simp add: visited_cells_def scan_axis_def Let_def fold_snoc_map upto_last_two
      upto_first_three)

text \<open>
  Claim C5, as the code has it. For a line of extent \<open>L \<ge> 5\<close>, scanning one time row
  of the base \<open>[L - 2, L + 3)\<close> against the limit \<open>L\<close> visits the two ranges \<open>[L - 2, L)\<close>
  and \<open>[0, 3)\<close>, that is the cells \<open>L - 2\<close>, \<open>L - 1\<close>, 0, 1, 2, each of them once.
\<close>

theorem wrap_around_scan:
  assumes "5 \<le> L"
  shows "visited_cells [\<lparr>r_begin = L - 2, r_end = L + 3\<rparr>] [L] =
           map (\<lambda>p. [p]) ([L - 2..L - 1] @ [0..2]) \<and>
         visited_cells [\<lparr>r_begin = L - 2, r_end = L + 3\<rparr>] [L] =
           [[L - 2], [L - 1], [0], [1], [2]] \<and>
         distinct (visited_cells [\<lparr>r_begin = L - 2, r_end = L + 3\<rparr>] [L])"
  using assms by (simp add: visited_cells_wrap upto_last_two upto_first_three)

theorem wrap_around_scan_witness:
  "visited_cells [\<lparr>r_begin = 3, r_end = 8\<rparr>] [5] = [[3], [4], [0], [1], [2]] \<and>
   distinct (visited_cells [\<lparr>r_begin = 3, r_end = 8\<rparr>] [5])"
  using wrap_around_scan [of 5] by (simp add: upto_first_three)

text \<open>For \<open>L = 3\<close> the five visits fall on three cells: the cells 1 and 2 are visited
  twice.\<close>

theorem wrap_around_scan_counterexample:
  "visited_cells [\<lparr>r_begin = 3 - 2, r_end = 3 + 3\<rparr>] [3] = [[1], [2], [0], [1], [2]] \<and>
   \<not> distinct (visited_cells [\<lparr>r_begin = 3 - 2, r_end = 3 + 3\<rparr>] [3])"
  using visited_cells_wrap [of 3] by simp

subsection \<open>The iterative strategies without steps\<close>

lemma sequential_loop_done:
  "\<not> t < steps \<Longrightarrow> sequential_iterative_loop update steps t st = st"
  by (simp add: sequential_iterative_loop.simps)

lemma coarse_loop_done:
  "\<not> t < steps \<Longrightarrow> coarse_grained_iterative_loop sched update steps t st = st"
  by (simp add: coarse_grained_iterative_loop.simps)

lemma fine_loop_done: "\<not> t < steps \<Longrightarrow> fine_grained_iterative_loop steps t st = st"
  by (cases st) (simp add: fine_grained_iterative_loop.simps)

lemma final_swap_initial: "final_swap (initial_state a b_init) = initial_state a b_init"
  by (simp add: final_swap_def initial_state_def)

lemma run_iteration_none: "fold (run_iteration update []) s st = st"
  by (induction s) (simp_all add: run_iteration_def)

text \<open>
  Claim C10. With a negative number of steps the time loops of the three iterative
  strategies make no iteration (they return the state they start from, in which
  \<^verbatim>\<open>x == &a\<close>), the final swap changes nothing, and \<^verbatim>\<open>a\<close> is what it was. No loop
  was issued to the runtime, so this holds for whatever the runtime schedules.
\<close>

theorem negative_steps_iterative:
  assumes "steps < 0"
  shows "sequential_iterative_loop update steps 0 st = st \<and>
         coarse_grained_iterative_loop sched update steps 0 st = st \<and>
         fine_grained_iterative_loop steps 0 (True, []) = (True, []) \<and>
         x_at_a (initial_state a b_init) \<and>
         final_swap (initial_state a b_init) = initial_state a b_init \<and>
         sequential_iterative a steps update b_init = a \<and>
         coarse_grained_iterative sched a steps update b_init = a \<and>
         fine_grained_iterative before_swap after_swap a steps update b_init = a"
  using assms
  by (simp add: sequential_loop_done coarse_loop_done fine_loop_done final_swap_initial
      sequential_iterative_def coarse_grained_iterative_def fine_grained_iterative_def
      run_iteration_none)
     (simp add: initial_state_def final_swap_def)

theorem negative_steps_iterative_witness:
  "sequential_iterative \<lparr>csize = [2], cell = (\<lambda>p. 7 :: int)\<rparr> (- 3)
     (\<lambda>t p V. cell V p + 1) (\<lambda>p. 0) = \<lparr>csize = [2], cell = (\<lambda>p. 7)\<rparr> \<and>
   coarse_grained_iterative (\<lambda>t. [[1], [0]]) \<lparr>csize = [2], cell = (\<lambda>p. 7 :: int)\<rparr> (- 3)
     (\<lambda>t p V. cell V p + 1) (\<lambda>p. 0) = \<lparr>csize = [2], cell = (\<lambda>p. 7)\<rparr> \<and>
   fine_grained_iterative [] [] \<lparr>csize = [2], cell = (\<lambda>p. 7 :: int)\<rparr> (- 3)
     (\<lambda>t p V. cell V p + 1) (\<lambda>p. 0) = \<lparr>csize = [2], cell = (\<lambda>p. 7)\<rparr>"
proof -
  let ?a = "\<lparr>csize = [2], cell = (\<lambda>p. 7 :: int)\<rparr>"
  let ?u = "\<lambda>(t :: int) (p :: Coordinate) (V :: int container). cell V p + 1"
  let ?b = "\<lambda>p :: Coordinate. 0 :: int"
  have neg: "(- 3 :: int) < 0" by simp
  from negative_steps_iterative [OF neg, where a = ?a and update = ?u and b_init = ?b
      and sched = "\<lambda>t. [[1], [0]]" and before_swap = "[]" and after_swap = "[]"
      and st = "initial_state ?a ?b"]
  show ?thesis by simp
qed

subsection \<open>Zero steps\<close>

lemma create_zero_steps: "steps \<le> 0 \<Longrightarrow> create b steps = Some []"
  by (simp add: create_def Let_def create_loop.simps)

lemma runParallel_schedule_no_layers: "runParallel_schedule limits [] s \<longleftrightarrow> s = []"
  by (auto elim: runParallel_schedule.cases intro: runParallel_schedule.intros)

lemma parallel_recursive_schedule_zero:
  "steps \<le> 0 \<Longrightarrow> parallel_recursive_schedule a steps s \<longleftrightarrow> s = []"
  by (simp add: parallel_recursive_schedule_def create_zero_steps runParallel_schedule_no_layers)

text \<open>
  Claim C2. With zero steps every strategy leaves the container as it was: the three
  iterative strategies for whatever the runtime schedules, the sequential recursive
  strategy for any order of the tasks, and the parallel recursive strategy for every
  schedule that \<^verbatim>\<open>runParallel\<close> admits for the plan, which is empty; the empty
  schedule is the only one.
\<close>

theorem zero_steps_unchanged:
  "sequential_iterative a 0 update b_init = a \<and>
   coarse_grained_iterative sched a 0 update b_init = a \<and>
   fine_grained_iterative before_swap after_swap a 0 update b_init = a \<and>
   sequential_recursive order a 0 update b_init = Some a \<and>
   parallel_recursive_schedule a 0 [] \<and>
   (\<forall>s. parallel_recursive_schedule a 0 s \<longrightarrow> parallel_recursive s a 0 update b_init = Some a)"
proof -
  have 1: "sequential_iterative a 0 update b_init = a"
    by (simp add: sequential_iterative_def sequential_loop_done final_swap_initial)
       (simp add: initial_state_def)
  have 2: "coarse_grained_iterative sched a 0 update b_init = a"
    by (simp add: coarse_grained_iterative_def coarse_loop_done final_swap_initial)
       (simp add: initial_state_def)
  have 3: "fine_grained_iterative before_swap after_swap a 0 update b_init = a"
    by (simp add: fine_grained_iterative_def fine_loop_done run_iteration_none)
       (simp add: initial_state_def final_swap_def)
  have 4: "sequential_recursive order a 0 update b_init = Some a"
    by (simp add: sequential_recursive_def create_zero_steps runSequential_def result_in_a_def)
  have 5: "parallel_recursive [] a 0 update b_init = Some a"
    by (simp add: parallel_recursive_def create_zero_steps run_calls_def result_in_a_def)
  from 1 2 3 4 5 show ?thesis
    by (simp add: parallel_recursive_schedule_zero)
qed

theorem zero_steps_unchanged_witness:
  "parallel_recursive_schedule \<lparr>csize = [4], cell = (\<lambda>p. 7 :: int)\<rparr> 0 [] \<and>
   parallel_recursive [] \<lparr>csize = [4], cell = (\<lambda>p. 7 :: int)\<rparr> 0
     (\<lambda>t p V. cell V p + 1) (\<lambda>p. 0) = Some \<lparr>csize = [4], cell = (\<lambda>p. 7)\<rparr>"
proof -
  let ?a = "\<lparr>csize = [4], cell = (\<lambda>p. 7 :: int)\<rparr>"
  let ?u = "\<lambda>(t :: int) (p :: Coordinate) (V :: int container). cell V p + 1"
  let ?b = "\<lambda>p :: Coordinate. 0 :: int"
  from zero_steps_unchanged [where a = ?a and update = ?u and b_init = ?b]
  show ?thesis by blast
qed

subsection \<open>A plan of height zero\<close>

text \<open>When the minimum width of the base is 0 or 1 the height of a layer is 0, the
  counter of the time loop of \<^verbatim>\<open>ExecutionPlan::create\<close> stays at 0, and with a positive
  number of steps the loop never ends: \<open>create\<close> has no result.\<close>

lemma create_loop_no_result:
  assumes "create_loop b splits height steps layers t0 = Some plan"
  shows "\<not> (height = 0 \<and> t0 = 0 \<and> 0 < steps)"
proof (rule create_loop.raw_induct
    [where P = "\<lambda>b splits height steps layers t0 plan. \<not> (height = 0 \<and> t0 = 0 \<and> 0 < steps)",
      OF _ assms])
  fix rec :: "Base \<Rightarrow> split list \<Rightarrow> int \<Rightarrow> int \<Rightarrow> ExecutionPlan \<Rightarrow> int \<Rightarrow> ExecutionPlan option"
    and b splits height steps layers t0 plan
  assume IH: "\<And>b splits height steps layers t0 plan.
      rec b splits height steps layers t0 = Some plan \<Longrightarrow> \<not> (height = 0 \<and> t0 = 0 \<and> 0 < steps)"
    and step: "(if t0 < steps
      then let t1 = min (take_bit 64 (t0 + height)) (take_bit 64 steps);
               zoids = map (create_zoid b splits (take_bit 64 t0) t1) [0..<2 ^ length b]
           in rec b splits height steps (layers @ [zoids]) (signed_take_bit 31 (t0 + height))
      else Some layers) = Some plan"
  show "\<not> (height = 0 \<and> t0 = 0 \<and> 0 < steps)"
  proof
    assume a: "height = 0 \<and> t0 = 0 \<and> 0 < steps"
    with step have "rec b splits height steps
        (layers @ [map (create_zoid b splits (take_bit 64 t0)
           (min (take_bit 64 (t0 + height)) (take_bit 64 steps))) [0..<2 ^ length b]]) 0 = Some plan"
      by (simp add: Let_def)
    from IH [OF this] a show False by simp
  qed
qed

lemma create_diverges:
  assumes "getMinimumWidth b sdiv 2 = 0" and "0 < steps"
  shows "create b steps = None"
proof (cases "create b steps")
  case None
  then show ?thesis .
next
  case (Some plan)
  then have "create_loop b (create_splits b) 0 steps [] 0 = Some plan"
    using assms(1) by (simp add: create_def Let_def)
  from create_loop_no_result [OF this] assms(2) show ?thesis by simp
qed

lemma full_singleton: "full [n] = [\<lparr>r_begin = 0, r_end = n\<rparr>]"
  by (simp add: full_def)

lemma getMinimumWidth_full_singleton: "getMinimumWidth (full [n]) = n"
  by (simp add: full_singleton getMinimumWidth_def Base_getWidth_def)

text \<open>
  Claim C6, on a container of one dimension and extent 0 with one step: an empty
  container is a legal input and \<^verbatim>\<open>process\<close> ought to return and leave it alone. The
  two recursive strategies never return, since the plan is never completed.
\<close>

theorem zero_extent_recursive_diverges:
  "create (full [0]) 1 = None \<and>
   sequential_recursive order \<lparr>csize = [0], cell = cells\<rparr> 1 update b_init = None \<and>
   parallel_recursive sched \<lparr>csize = [0], cell = cells\<rparr> 1 update b_init = None"
proof -
  have "create (full [0]) 1 = None"
    by (rule create_diverges) (simp_all add: getMinimumWidth_full_singleton)
  then show ?thesis
    by (simp add: sequential_recursive_def parallel_recursive_def)
qed

text \<open>
  Claim C4, on a grid of one cell with one step: the grid has positive extents, and the
  plan ought to cover the cell \<open>(0, 0)\<close> once. There is no plan: \<^verbatim>\<open>create\<close> never
  returns.
\<close>

theorem one_cell_plan_diverges: "create (full [1]) 1 = None"
proof (rule create_diverges)
  have "(1::int) sdiv 2 = 0" by (simp add: sdiv2_nonneg)
  then show "getMinimumWidth (full [1]) sdiv 2 = 0"
    by (simp add: getMinimumWidth_full_singleton)
qed simp

subsection \<open>The plan that \<^verbatim>\<open>create\<close> builds\<close>

lemma map_upt_update:
  "j < n \<Longrightarrow> (map g [0..<n])[j := v] = map (\<lambda>i. if i = j then v else g i) [0..<n]"
  by (rule nth_equalityI) (auto simp: nth_list_update)

lemma create_zoid_fold:
  assumes "j \<le> length b"
  shows "fold (\<lambda>j (curBase, slopes).
                 if bit m j
                 then (curBase[j := split_right (splits ! j)], slopes[j := - 1])
                 else (curBase[j := split_left (splits ! j)], slopes[j := 1]))
              [0..<j] (b, replicate (length b) 0) =
         (map (\<lambda>i. if i < j then (if bit m i then split_right (splits ! i)
                                   else split_left (splits ! i))
                     else b ! i) [0..<length b],
          map (\<lambda>i. if i < j then (if bit m i then - 1 else 1) else 0) [0..<length b])"
  using assms
proof (induction j)
  case 0
  show ?case
    by (auto intro!: nth_equalityI)
next
  case (Suc j)
  then have j: "j < length b" by simp
  have eq: "(i < Suc j) = (i = j \<or> i < j)" for i by auto
  show ?case
    using Suc j
    by (auto simp: map_upt_update eq intro!: nth_equalityI)
qed

lemma create_splits_nth:
  "i < length b \<Longrightarrow>
   create_splits b ! i =
     \<lparr>split_left = \<lparr>r_begin = 0, r_end = spec_mid b i\<rparr>,
      split_right = \<lparr>r_begin = spec_mid b i, r_end = Base_getWidth b i\<rparr>\<rparr>"
  by (simp add: create_splits_def Let_def Base_extend_def spec_mid_def)

lemma create_zoid_spec: "create_zoid b (create_splits b) t0 t1 m = spec_zoid b t0 t1 m"
  by (simp add: create_zoid_def create_zoid_fold spec_zoid_def create_splits_nth)

lemma layer_count_step:
  fixes h steps t0 :: int
  assumes "1 \<le> h" "t0 < steps"
  shows "nat ((steps - t0 + h - 1) div h) = Suc (nat ((steps - (t0 + h) + h - 1) div h))"
proof -
  have "(steps - t0 + h - 1) div h = (steps - t0 - 1) div h + 1"
    using assms(1) div_add_self2 [of h "steps - t0 - 1"] by (simp add: algebra_simps)
  moreover have "0 \<le> (steps - t0 - 1) div h"
    using assms by (simp add: pos_imp_zdiv_nonneg_iff)
  moreover have "steps - (t0 + h) + h - 1 = steps - t0 - 1" by simp
  ultimately show ?thesis by simp
qed

lemma layer_count_done:
  fixes h steps t0 :: int
  assumes "1 \<le> h" "\<not> t0 < steps"
  shows "nat ((steps - t0 + h - 1) div h) = 0"
proof -
  have "steps - t0 + h - 1 < h" using assms by simp
  then have "(steps - t0 + h - 1) div h \<le> 0"
  proof -
    have "(steps - t0 + h - 1) div h \<le> (h - 1) div h"
      by (rule zdiv_mono1) (use assms in simp_all)
    also have "(h - 1) div h = 0"
      using assms(1) by (simp add: div_pos_pos_trivial)
    finally show ?thesis .
  qed
  then show ?thesis by simp
qed


lemma map_upt_Suc_shift: "map f [0..<Suc n] = f 0 # map (\<lambda>k. f (Suc k)) [0..<n]"
  by (simp add: upt_conv_Cons map_Suc_upt [symmetric] del: upt_Suc)

lemma create_loop_layers:
  fixes h steps t0 :: int
  assumes h: "1 \<le> h" and bound: "steps + h < 2 ^ 31" and t0: "0 \<le> t0"
  shows "create_loop b splits h steps layers t0 =
         Some (layers @
               map (\<lambda>k. map (create_zoid b splits (t0 + int k * h)
                                (min (t0 + int k * h + h) steps)) [0..<2 ^ length b])
                   [0..<nat ((steps - t0 + h - 1) div h)])"
  using t0
proof (induction "nat (steps - t0)" arbitrary: t0 layers rule: less_induct)
  case less
  show ?case
  proof (cases "t0 < steps")
    case False
    then show ?thesis
      using layer_count_done [OF h False]
      by (subst create_loop.simps) simp
  next
    case True
    have s64: "take_bit 64 steps = steps"
      using True less.prems bound h
      by (intro take_bit_int_eq_self) (auto intro: less_trans [of _ "2 ^ 31"])
    have t64: "take_bit 64 t0 = t0"
      using True less.prems bound h
      by (intro take_bit_int_eq_self) (auto intro: less_trans [of _ "2 ^ 31"])
    have th64: "take_bit 64 (t0 + h) = t0 + h"
      using True less.prems bound h
      by (intro take_bit_int_eq_self) (auto intro: less_trans [of _ "2 ^ 31"])
    have th31: "signed_take_bit 31 (t0 + h) = t0 + h"
      using True less.prems bound h
      by (intro signed_take_bit_int_eq_self) auto
    have m: "nat (steps - (t0 + h)) < nat (steps - t0)"
      using True h by simp
    have p: "0 \<le> t0 + h" using less.prems h by simp
    note IH = less.hyps [OF m p]
    have idx: "t0 + h + int k * h = t0 + int (Suc k) * h" for k
      by (simp add: algebra_simps)
    show ?thesis
      using True IH
      by (subst create_loop.simps)
         (simp add: Let_def s64 t64 th64 th31 layer_count_step [OF h True]
           map_upt_Suc_shift idx del: upt_Suc of_nat_Suc)
  qed
qed

text \<open>
  For a base of minimum width at least 2, so that a layer has a height of at
  least 1, and a number of steps that the \<^verbatim>\<open>int\<close> counter of the time loop can pass
  (\<open>steps + height < 2\<^sup>3\<^sup>1\<close>), \<^verbatim>\<open>ExecutionPlan::create\<close> returns the plan of the
  specification: the height is half the minimum width, dimension \<open>i\<close> is split at
  \<open>mid\<^sub>i = extent\<^sub>i - (extent\<^sub>i - width) / 2\<close> into \<open>[0, mid\<^sub>i)\<close> and \<open>[mid\<^sub>i, extent\<^sub>i)\<close>,
  there is one layer for each interval \<open>[t\<^sub>0, min (t\<^sub>0 + height) steps)\<close> until \<open>steps\<close> is
  reached, and the zoid of index \<open>m\<close> in a layer has the right part and slope \<open>-1\<close> where
  bit \<open>i\<close> of \<open>m\<close> is set, the left part and slope \<open>+1\<close> where it is clear.
\<close>

theorem create_plan:
  assumes "2 \<le> getMinimumWidth b"
    and "steps + getMinimumWidth b sdiv 2 < 2 ^ 31"
  shows "create b steps = Some (spec_plan b steps)"
proof -
  have h: "1 \<le> spec_height b"
    using assms(1) sdiv2_half(1) [of "getMinimumWidth b"] by (simp add: spec_height_def)
  have bound: "steps + spec_height b < 2 ^ 31"
    using assms(2) by (simp add: spec_height_def)
  have z: "(0::int) \<le> 0" by simp
  show ?thesis
    using create_loop_layers [OF h bound z, of b "create_splits b" "[]"]
    by (simp add: create_def Let_def spec_plan_def spec_layer_def spec_layer_count_def
        create_zoid_spec spec_height_def)
qed

theorem create_plan_witness:
  "create (full [8, 5]) 3 =
   Some [[\<lparr>base = [\<lparr>r_begin = 0, r_end = 7\<rparr>, \<lparr>r_begin = 0, r_end = 5\<rparr>], slopes = [1, 1],
           t_begin = 0, t_end = 2\<rparr>,
          \<lparr>base = [\<lparr>r_begin = 7, r_end = 8\<rparr>, \<lparr>r_begin = 0, r_end = 5\<rparr>], slopes = [- 1, 1],
           t_begin = 0, t_end = 2\<rparr>,
          \<lparr>base = [\<lparr>r_begin = 0, r_end = 7\<rparr>, \<lparr>r_begin = 5, r_end = 5\<rparr>], slopes = [1, - 1],
           t_begin = 0, t_end = 2\<rparr>,
          \<lparr>base = [\<lparr>r_begin = 7, r_end = 8\<rparr>, \<lparr>r_begin = 5, r_end = 5\<rparr>], slopes = [- 1, - 1],
           t_begin = 0, t_end = 2\<rparr>],
         [\<lparr>base = [\<lparr>r_begin = 0, r_end = 7\<rparr>, \<lparr>r_begin = 0, r_end = 5\<rparr>], slopes = [1, 1],
           t_begin = 2, t_end = 3\<rparr>,
          \<lparr>base = [\<lparr>r_begin = 7, r_end = 8\<rparr>, \<lparr>r_begin = 0, r_end = 5\<rparr>], slopes = [- 1, 1],
           t_begin = 2, t_end = 3\<rparr>,
          \<lparr>base = [\<lparr>r_begin = 0, r_end = 7\<rparr>, \<lparr>r_begin = 5, r_end = 5\<rparr>], slopes = [1, - 1],
           t_begin = 2, t_end = 3\<rparr>,
          \<lparr>base = [\<lparr>r_begin = 7, r_end = 8\<rparr>, \<lparr>r_begin = 5, r_end = 5\<rparr>], slopes = [- 1, - 1],
           t_begin = 2, t_end = 3\<rparr>]]"
proof -
  have w: "getMinimumWidth (full [8, 5]) = 5"
    by code_simp
  have h: "(5::int) sdiv 2 = 2"
    by (simp add: sdiv2_nonneg)
  have p: "spec_plan (full [8, 5]) 3 =
   [[\<lparr>base = [\<lparr>r_begin = 0, r_end = 7\<rparr>, \<lparr>r_begin = 0, r_end = 5\<rparr>], slopes = [1, 1],
           t_begin = 0, t_end = 2\<rparr>,
          \<lparr>base = [\<lparr>r_begin = 7, r_end = 8\<rparr>, \<lparr>r_begin = 0, r_end = 5\<rparr>], slopes = [- 1, 1],
           t_begin = 0, t_end = 2\<rparr>,
          \<lparr>base = [\<lparr>r_begin = 0, r_end = 7\<rparr>, \<lparr>r_begin = 5, r_end = 5\<rparr>], slopes = [1, - 1],
           t_begin = 0, t_end = 2\<rparr>,
          \<lparr>base = [\<lparr>r_begin = 7, r_end = 8\<rparr>, \<lparr>r_begin = 5, r_end = 5\<rparr>], slopes = [- 1, - 1],
           t_begin = 0, t_end = 2\<rparr>],
         [\<lparr>base = [\<lparr>r_begin = 0, r_end = 7\<rparr>, \<lparr>r_begin = 0, r_end = 5\<rparr>], slopes = [1, 1],
           t_begin = 2, t_end = 3\<rparr>,
          \<lparr>base = [\<lparr>r_begin = 7, r_end = 8\<rparr>, \<lparr>r_begin = 0, r_end = 5\<rparr>], slopes = [- 1, 1],
           t_begin = 2, t_end = 3\<rparr>,
          \<lparr>base = [\<lparr>r_begin = 0, r_end = 7\<rparr>, \<lparr>r_begin = 5, r_end = 5\<rparr>], slopes = [1, - 1],
           t_begin = 2, t_end = 3\<rparr>,
          \<lparr>base = [\<lparr>r_begin = 7, r_end = 8\<rparr>, \<lparr>r_begin = 5, r_end = 5\<rparr>], slopes = [- 1, - 1],
           t_begin = 2, t_end = 3\<rparr>]]"
    by code_simp
  from create_plan [of "full [8, 5]" 3] show ?thesis
    by (simp add: w h p)
qed

text \<open>
  Claim C8, on a grid of 3 by 1 cells with two steps. The minimum width is 1 and the
  height of a layer \<open>1 / 2 = 0\<close>: \<^verbatim>\<open>create\<close> ought to emit layers until the interval
  \<open>[0, 2)\<close> is covered, but the time loop stays at \<open>t\<^sub>0 = 0\<close> and no plan is returned.
\<close>

lemma getMinimumWidth_thin_grid: "getMinimumWidth (full [3, 1]) = 1"
  by code_simp

theorem thin_grid_no_plan:
  "getMinimumWidth (full [3, 1]) sdiv 2 = 0 \<and> create (full [3, 1]) 2 = None"
proof -
  have h: "getMinimumWidth (full [3, 1]) sdiv 2 = 0"
    by (simp add: getMinimumWidth_thin_grid sdiv2_nonneg)
  have "create (full [3, 1]) 2 = None"
    by (rule create_diverges [OF h]) simp
  with h show ?thesis by simp
qed

subsection \<open>The sequential iterative strategy makes the sweeps\<close>

lemma same_contents_refl [simp]: "same_contents V V"
  by (simp add: same_contents_def)

lemma same_contents_sym: "same_contents V V' \<Longrightarrow> same_contents V' V"
  by (simp add: same_contents_def)

lemma same_contents_trans [trans]:
  "same_contents V V' \<Longrightarrow> same_contents V' V'' \<Longrightarrow> same_contents V V''"
  by (simp add: same_contents_def)

lemma same_contents_iff:
  "same_contents V V' \<longleftrightarrow>
   csize V = csize V' \<and> (\<forall>p\<in>set (indices (csize V)). cell V p = cell V' p)"
  by (auto simp: same_contents_def contents_def)

lemma sweep_cong:
  assumes "reads_cells update" and "same_contents V V'"
  shows "same_contents (sweep update t V) (sweep update t V')"
  using assms by (auto simp: same_contents_iff sweep_def reads_cells_def)

lemma run_steps_cong:
  assumes "reads_cells update" and "same_contents V V'"
  shows "same_contents (run_steps update t0 V n) (run_steps update t0 V' n)"
  by (induction n) (simp_all add: assms sweep_cong)

lemma run_steps_add:
  "run_steps update t0 a (m + n) = run_steps update (t0 + int m) (run_steps update t0 a m) n"
  by (induction n) (simp_all add: algebra_simps)

lemma run_steps_shift:
  "run_steps (\<lambda>t. update (t + k)) t0 a n = run_steps update (t0 + k) a n"
  by (induction n) (simp_all add: sweep_def algebra_simps)

lemma csize_run_steps [simp]: "csize (run_steps update t0 a n) = csize a"
  by (induction n) (simp_all add: sweep_def)

text \<open>One sweep of the loop body over a list of indices.\<close>

lemma fold_iter_body_a:
  assumes "x_at_a st"
  shows "fold (iter_body update t) ps st =
         st\<lparr>cont_b := (cont_b st)\<lparr>cell := (\<lambda>p. if p \<in> set ps then update t p (cont_a st)
                                               else cell (cont_b st) p)\<rparr>\<rparr>"
  using assms
proof (induction ps arbitrary: st)
  case Nil
  then show ?case by simp
next
  case (Cons q ps)
  have "x_at_a (iter_body update t q st)"
    using Cons.prems by (simp add: iter_body_def)
  from Cons.IH [OF this] Cons.prems show ?case
    by (auto simp: iter_body_def store_def fun_eq_iff intro!: iter_state.equality container.equality)
qed

lemma fold_iter_body_b:
  assumes "\<not> x_at_a st"
  shows "fold (iter_body update t) ps st =
         st\<lparr>cont_a := (cont_a st)\<lparr>cell := (\<lambda>p. if p \<in> set ps then update t p (cont_b st)
                                               else cell (cont_a st) p)\<rparr>\<rparr>"
  using assms
proof (induction ps arbitrary: st)
  case Nil
  then show ?case by simp
next
  case (Cons q ps)
  have "\<not> x_at_a (iter_body update t q st)"
    using Cons.prems by (simp add: iter_body_def)
  from Cons.IH [OF this] Cons.prems show ?case
    by (auto simp: iter_body_def store_def fun_eq_iff intro!: iter_state.equality container.equality)
qed

lemma sweep_step:
  assumes r: "reads_cells update" and s: "sized sz st"
    and ps: "set ps = set (indices sz)"
    and inv: "same_contents (read_buffer st) V"
  shows "sized sz (swap_xy (fold (iter_body update t) ps st)) \<and>
         same_contents (read_buffer (swap_xy (fold (iter_body update t) ps st))) (sweep update t V)"
proof (cases "x_at_a st")
  case True
  with inv have "same_contents (cont_a st) V" by (simp add: read_buffer_def)
  then have "update t p (cont_a st) = update t p V" for p
    using r by (simp add: reads_cells_def)
  then show ?thesis
    using True s ps inv
    by (auto simp: fold_iter_body_a swap_xy_def sized_def read_buffer_def same_contents_iff
        sweep_def)
next
  case False
  with inv have "same_contents (cont_b st) V" by (simp add: read_buffer_def)
  then have "update t p (cont_b st) = update t p V" for p
    using r by (simp add: reads_cells_def)
  then show ?thesis
    using False s ps inv
    by (auto simp: fold_iter_body_b swap_xy_def sized_def read_buffer_def same_contents_iff
        sweep_def)
qed


lemma cont_a_final_swap: "cont_a (final_swap st) = read_buffer st"
  by (simp add: final_swap_def read_buffer_def)

lemma sequential_loop_sweeps:
  "reads_cells update \<Longrightarrow> 0 \<le> t \<Longrightarrow> t \<le> steps \<Longrightarrow> sized sz st \<Longrightarrow>
   same_contents (read_buffer st) (run_steps update 0 a (nat t)) \<Longrightarrow>
   same_contents (read_buffer (sequential_iterative_loop update steps t st))
     (run_steps update 0 a (nat steps))"
proof (induction update steps t st rule: sequential_iterative_loop.induct)
  case (1 update steps t st)
  note r = "1.prems"(1) and t0 = "1.prems"(2) and s = "1.prems"(4) and inv = "1.prems"(5)
  show ?case
  proof (cases "t < steps")
    case False
    with "1.prems" have "t = steps" by simp
    with inv show ?thesis by (simp add: sequential_loop_done)
  next
    case True
    let ?st = "swap_xy (detail_forEach (csize (cont_a st)) (iter_body update t) st)"
    have sz: "csize (cont_a st) = sz" using s by (simp add: sized_def)
    note ss = sweep_step [OF r s refl inv, of t]
    have a: "sized sz ?st"
      using ss by (simp only: detail_forEach_def sz)
    have b: "same_contents (read_buffer ?st) (sweep update t (run_steps update 0 a (nat t)))"
      using ss by (simp only: detail_forEach_def sz)
    have "nat (t + 1) = Suc (nat t)" using t0 by simp
    with b t0
    have c: "same_contents (read_buffer ?st) (run_steps update 0 a (nat (t + 1)))"
      by simp
    have "same_contents (read_buffer (sequential_iterative_loop update steps (t + 1) ?st))
           (run_steps update 0 a (nat steps))"
      using "1.IH" [OF True r _ _ a c] True t0 by simp
    then show ?thesis
      using True by (subst sequential_iterative_loop.simps) simp
  qed
qed

lemma sequential_iterative_sweeps:
  assumes r: "reads_cells update"
  shows "same_contents (sequential_iterative a steps update b_init)
           (run_steps update 0 a (nat steps))"
proof (cases "0 \<le> steps")
  case False
  then show ?thesis
    by (simp add: sequential_iterative_def sequential_loop_done final_swap_initial)
       (simp add: initial_state_def)
next
  case True
  have "sized (csize a) (initial_state a b_init)"
    by (simp add: sized_def initial_state_def fresh_def)
  moreover have "same_contents (read_buffer (initial_state a b_init)) (run_steps update 0 a (nat 0))"
    by (simp add: read_buffer_def initial_state_def)
  ultimately show ?thesis
    using sequential_loop_sweeps [OF r _ True, where sz = "csize a"
        and st = "initial_state a b_init" and a = a]
    by (simp add: sequential_iterative_def cont_a_final_swap)
qed

lemma reads_cells_shift: "reads_cells update \<Longrightarrow> reads_cells (\<lambda>t. update (t + k))"
  by (simp add: reads_cells_def)

text \<open>
  The sequential iterative strategy composes. Let the update function read the cells of
  its container only, and let \<open>T1\<close> and \<open>T2\<close> be non-negative. Running the sequential
  iterative \<^verbatim>\<open>process\<close> for \<open>T1 + T2\<close> steps leaves the same contents in the container
  as running it for \<open>T1\<close> steps and then, on the result, for \<open>T2\<close> steps with the update
  function shifted by \<open>T1\<close>. The fresh containers \<^verbatim>\<open>b\<close> of the three runs may hold
  anything.
\<close>

theorem stencil_composition:
  assumes r: "reads_cells update" and T1: "0 \<le> T1" and T2: "0 \<le> T2"
  shows "same_contents
           (sequential_iterative a (T1 + T2) update b1)
           (sequential_iterative (sequential_iterative a T1 update b2) T2
              (\<lambda>t. update (t + T1)) b3)"
proof -
  let ?V1 = "run_steps update 0 a (nat T1)"
  let ?a1 = "sequential_iterative a T1 update b2"
  have 1: "same_contents ?a1 ?V1"
    by (rule sequential_iterative_sweeps [OF r])
  have "same_contents (sequential_iterative ?a1 T2 (\<lambda>t. update (t + T1)) b3)
          (run_steps (\<lambda>t. update (t + T1)) 0 ?a1 (nat T2))"
    by (rule sequential_iterative_sweeps [OF reads_cells_shift [OF r]])
  also have "same_contents \<dots> (run_steps (\<lambda>t. update (t + T1)) 0 ?V1 (nat T2))"
    by (rule run_steps_cong [OF reads_cells_shift [OF r] 1])
  also have "run_steps (\<lambda>t. update (t + T1)) 0 ?V1 (nat T2) =
             run_steps update 0 a (nat T1 + nat T2)"
    using T1 by (simp add: run_steps_shift run_steps_add)
  also have "nat T1 + nat T2 = nat (T1 + T2)"
    using T1 T2 by (simp add: nat_add_distrib)
  finally have "same_contents (sequential_iterative ?a1 T2 (\<lambda>t. update (t + T1)) b3)
          (run_steps update 0 a (nat (T1 + T2)))" .
  moreover have "same_contents (sequential_iterative a (T1 + T2) update b1)
          (run_steps update 0 a (nat (T1 + T2)))"
    by (rule sequential_iterative_sweeps [OF r])
  ultimately show ?thesis
    by (blast intro: same_contents_trans same_contents_sym)
qed

lemma reads_cells_increment_cell: "reads_cells increment_cell"
  by (auto simp: reads_cells_def increment_cell_def same_contents_iff)

theorem stencil_composition_witness:
  "reads_cells increment_cell \<and>
   same_contents
     (sequential_iterative \<lparr>csize = [3], cell = (\<lambda>p. 7)\<rparr> (1 + 2) increment_cell (\<lambda>p. 0))
     (sequential_iterative
        (sequential_iterative \<lparr>csize = [3], cell = (\<lambda>p. 7)\<rparr> 1 increment_cell (\<lambda>p. 1))
        2 (\<lambda>t. increment_cell (t + 1)) (\<lambda>p. 2))"
proof -
  have "(0::int) \<le> 1" and "(0::int) \<le> 2" by simp_all
  from stencil_composition [OF reads_cells_increment_cell this]
  show ?thesis
    by (simp add: reads_cells_increment_cell)
qed

subsection \<open>Every schedule that respects the neighbours computes the sweeps\<close>

lemma set_indices:
  "set (indices sz) = {p. length p = length sz \<and> (\<forall>d<length sz. 0 \<le> p ! d \<and> p ! d < sz ! d)}"
proof (induction sz)
  case Nil
  show ?case by auto
next
  case (Cons n ns)
  show ?case
  proof (rule set_eqI)
    fix p
    show "p \<in> set (indices (n # ns)) \<longleftrightarrow>
          p \<in> {p. length p = length (n # ns) \<and>
                   (\<forall>d<length (n # ns). 0 \<le> p ! d \<and> p ! d < (n # ns) ! d)}"
    proof (cases p)
      case Nil
      then show ?thesis by auto
    next
      case (Cons x xs)
      have "(\<forall>d<Suc (length ns). 0 \<le> (x # xs) ! d \<and> (x # xs) ! d < (n # ns) ! d) \<longleftrightarrow>
            (0 \<le> x \<and> x < n) \<and> (\<forall>d<length ns. 0 \<le> xs ! d \<and> xs ! d < ns ! d)"
        by (auto simp: nth_Cons split: nat.splits)
      then show ?thesis
        using Cons Cons.IH by auto
    qed
  qed
qed

lemma neighbours_refl: "p \<in> set (indices sz) \<Longrightarrow> neighbours sz p p"
  by (auto simp: set_indices neighbours_def intro!: bexI [of _ 0])

lemma neighbours_sym:
  assumes "p \<in> set (indices sz)" and "neighbours sz p q"
  shows "neighbours sz q p"
  unfolding neighbours_def
proof (intro conjI allI impI)
  show "length q = length sz" "length p = length sz"
    using assms by (simp_all add: neighbours_def)
  fix d assume d: "d < length sz"
  with assms obtain k where k: "k \<in> {- 1, 0, 1}" "q ! d = (p ! d + k) mod (sz ! d)"
    unfolding neighbours_def by blast
  from assms(1) d have p: "0 \<le> p ! d" "p ! d < sz ! d"
    by (simp_all add: set_indices)
  have "(q ! d + - k) mod (sz ! d) = (p ! d + k + - k) mod (sz ! d)"
    unfolding k(2) by (simp add: mod_diff_left_eq)
  also have "\<dots> = p ! d" using p by simp
  finally have "p ! d = (q ! d + - k) mod (sz ! d)" by simp
  moreover have "- k \<in> {- 1, 0, 1}" using k(1) by auto
  ultimately show "\<exists>k\<in>{- 1, 0, 1}. p ! d = (q ! d + k) mod (sz ! d)" by blast
qed

lemma closed_events_down:
  assumes c: "closed_events sz D" and p: "p \<in> set (indices sz)"
  shows "(t', p) \<in> D \<Longrightarrow> 0 \<le> t \<Longrightarrow> t \<le> t' \<Longrightarrow> (t, p) \<in> D"
proof (induction "nat (t' - t)" arbitrary: t')
  case 0
  then show ?case by simp
next
  case (Suc n)
  then have "0 < t'" by simp
  with c p Suc.prems(1) neighbours_refl [OF p] have "(t' - 1, p) \<in> D"
    unfolding closed_events_def by blast
  moreover have "n = nat (t' - 1 - t)" using Suc.hyps(2) by simp
  ultimately show ?case
    using Suc.hyps(1) [of "t' - 1"] Suc.prems Suc.hyps(2) by simp
qed

lemma run_calls_fold: "run_calls update s ab = fold (exec_call update) s ab"
  by (simp add: run_calls_def exec_call_def [abs_def])

lemma run_calls_snoc: "run_calls update (s @ [e]) ab = exec_call update e (run_calls update s ab)"
  by (simp add: run_calls_fold)

lemma csize_exec_call [simp]:
  "csize (fst (exec_call update e ab)) = csize (fst ab)"
  "csize (snd (exec_call update e ab)) = csize (snd ab)"
  by (simp_all add: exec_call_def odd_op_def even_op_def store_def)

lemma cell_exec_call:
  "cell (buffer_of t' (exec_call update (t, p) ab)) p' =
     (if even t' = odd t \<and> p' = p then update t p (buffer_of t ab)
      else cell (buffer_of t' ab) p')"
  by (auto simp: exec_call_def odd_op_def even_op_def store_def buffer_of_def)

lemma csize_buffer_of:
  "csize (fst ab) = sz \<Longrightarrow> csize (snd ab) = sz \<Longrightarrow> csize (buffer_of t ab) = sz"
  by (simp add: buffer_of_def)

lemma schedule_inv_step:
  assumes loc: "local_update sz update" and a0: "csize a0 = sz"
    and inv: "schedule_inv update a0 sz D ab"
    and cD: "closed_events sz D" and cD': "closed_events sz (insert (t, p) D)"
    and new: "(t, p) \<notin> D" and t: "0 \<le> t" and p: "p \<in> set (indices sz)"
  shows "schedule_inv update a0 sz (insert (t, p) D) (exec_call update (t, p) ab)"
proof -
  let ?S = "\<lambda>k. run_steps update 0 a0 (nat k)"
  from inv have sa: "csize (fst ab) = sz" and sb: "csize (snd ab) = sz"
    and cells: "\<And>p t. p \<in> set (indices sz) \<Longrightarrow> 0 \<le> t \<Longrightarrow>
        t = 0 \<or> (t - 1, p) \<in> D \<Longrightarrow> (t + 1, p) \<notin> D \<Longrightarrow>
        cell (buffer_of t ab) p = cell (?S t) p"
    unfolding schedule_inv_def by blast+
  have before: "(t - 1, q) \<in> D" if "0 < t" "q \<in> set (indices sz)" "neighbours sz p q" for q
  proof -
    from cD' that have "(t - 1, q) \<in> insert (t, p) D"
      unfolding closed_events_def by blast
    then show ?thesis by simp
  qed
  have reads: "cell (buffer_of t ab) q = cell (?S t) q"
    if q: "q \<in> set (indices sz)" and n: "neighbours sz p q" for q
  proof (rule cells [OF q t])
    show "t = 0 \<or> (t - 1, q) \<in> D"
      using before [OF _ q n] t by (cases "t = 0") auto
    show "(t + 1, q) \<notin> D"
    proof
      assume "(t + 1, q) \<in> D"
      moreover have "neighbours sz q p"
        by (rule neighbours_sym) (use p n q in \<open>auto intro: neighbours_sym\<close>)
      ultimately have "(t + 1 - 1, p) \<in> D"
        using cD t p unfolding closed_events_def by (metis add_strict_increasing2 zero_less_one)
      with new show False by simp
    qed
  qed
  have val: "update t p (buffer_of t ab) = cell (?S (t + 1)) p"
  proof -
    have "update t p (buffer_of t ab) = update t p (?S t)"
      using loc reads sa sb a0 unfolding local_update_def
      by (metis csize_buffer_of csize_run_steps)
    moreover have "nat (t + 1) = Suc (nat t)" using t by simp
    ultimately show ?thesis using t by (simp add: sweep_def)
  qed
  show ?thesis
    unfolding schedule_inv_def
  proof (intro conjI ballI allI impI)
    show "csize (fst (exec_call update (t, p) ab)) = sz" using sa by simp
    show "csize (snd (exec_call update (t, p) ab)) = sz" using sb by simp
    fix p' t'
    assume p': "p' \<in> set (indices sz)" and t': "0 \<le> t'"
      and c: "(t' = 0 \<or> (t' - 1, p') \<in> insert (t, p) D) \<and> (t' + 1, p') \<notin> insert (t, p) D"
    show "cell (buffer_of t' (exec_call update (t, p) ab)) p' = cell (?S t') p'"
    proof (cases "even t' = odd t \<and> p' = p")
      case False
      then have "(t' - 1, p') \<noteq> (t, p)" by auto
      with c have "t' = 0 \<or> (t' - 1, p') \<in> D" and "(t' + 1, p') \<notin> D" by auto
      from cells [OF p' t' this] False show ?thesis
        by (auto simp: cell_exec_call)
    next
      case True
      then have pp: "p' = p" and par: "even t' = odd t" by simp_all
      have "t' = t + 1"
      proof (rule ccontr)
        assume ne: "t' \<noteq> t + 1"
        show False
        proof (cases "t' < t")
          case True
          with par have lt: "t' + 1 \<le> t" by simp
          from c pp have nin: "(t' + 1, p) \<notin> D" and neq: "t' + 1 \<noteq> t" by auto
          from lt neq have "0 < t" "t' + 1 \<le> t - 1" using t' by simp_all
          from before [OF this(1) p neighbours_refl [OF p]]
          have "(t - 1, p) \<in> D" .
          from closed_events_down [OF cD p this _ \<open>t' + 1 \<le> t - 1\<close>] t' nin
          show False by simp
        next
          case False
          with par ne have gt: "t + 2 \<le> t' - 1" by presburger
          with c pp t have "(t' - 1, p) \<in> D" by auto
          from closed_events_down [OF cD p this t] gt new show False by simp
        qed
      qed
      with val pp par show ?thesis
        by (simp add: cell_exec_call)
    qed
  qed
qed

lemma indices_product_lists: "indices sz = product_lists (map (\<lambda>n. [0..n - 1]) sz)"
  by (induction sz) simp_all

lemma distinct_indices: "distinct (indices sz)"
  unfolding indices_product_lists by (rule distinct_product_lists) auto

lemma concat_map_Nil: "concat (map (\<lambda>t. []) xs) = []"
  by (induction xs) simp_all

lemma distinct_all_iterations: "distinct (all_iterations sz steps)"
proof (cases "indices sz = []")
  case True
  then show ?thesis by (simp add: all_iterations_def concat_map_Nil)
next
  case False
  then obtain x where x: "x \<in> set (indices sz)" by (cases "indices sz") auto
  have inj: "inj_on (\<lambda>t. map (Pair t) (indices sz)) (set [0..steps - 1])"
  proof (rule inj_onI)
    fix t t' assume "map (Pair t) (indices sz) = map (Pair t') (indices sz)"
    then have "Pair t x = Pair t' x" using x by (metis map_eq_conv)
    then show "t = t'" by simp
  qed
  show ?thesis
    unfolding all_iterations_def
  proof (rule distinct_concat)
    show "distinct (map (\<lambda>t. map (Pair t) (indices sz)) [0..steps - 1])"
      using inj by (simp add: distinct_map)
    show "\<And>ys. ys \<in> set (map (\<lambda>t. map (Pair t) (indices sz)) [0..steps - 1]) \<Longrightarrow> distinct ys"
      by (auto simp: distinct_map distinct_indices inj_on_def)
    show "\<And>ys zs. ys \<in> set (map (\<lambda>t. map (Pair t) (indices sz)) [0..steps - 1]) \<Longrightarrow>
         zs \<in> set (map (\<lambda>t. map (Pair t) (indices sz)) [0..steps - 1]) \<Longrightarrow> ys \<noteq> zs \<Longrightarrow>
         set ys \<inter> set zs = {}"
      by auto
  qed
qed

lemma set_all_iterations:
  "set (all_iterations sz steps) = {e. 0 \<le> fst e \<and> fst e < steps \<and> snd e \<in> set (indices sz)}"
  by (auto simp: all_iterations_def)

lemma fine_grained_schedule_distinct:
  "fine_grained_schedule sz steps s \<Longrightarrow> distinct s"
  unfolding fine_grained_schedule_def
  by (metis distinct_all_iterations mset_eq_imp_distinct_iff)

lemma fine_grained_schedule_set:
  "fine_grained_schedule sz steps s \<Longrightarrow>
   set s = {e. 0 \<le> fst e \<and> fst e < steps \<and> snd e \<in> set (indices sz)}"
  unfolding fine_grained_schedule_def
  by (metis set_all_iterations mset_eq_setD)

lemma respects_neighbours_closed:
  assumes "respects_neighbours sz s"
  shows "closed_events sz (set (take n s))"
  unfolding closed_events_def
proof (intro allI impI)
  fix t q q'
  assume a: "(t, q) \<in> set (take n s) \<and> 0 < t \<and> q' \<in> set (indices sz) \<and> neighbours sz q q'"
  then obtain k where k: "k < length (take n s)" "take n s ! k = (t, q)"
    by (auto simp: in_set_conv_nth)
  then have kn: "k < n" "k < length s" "s ! k = (t, q)" by simp_all
  with assms a obtain j where j: "j < k" "s ! j = (t - 1, q')"
    unfolding respects_neighbours_def by (metis fst_conv snd_conv)
  with kn have "j < length (take n s)" "take n s ! j = (t - 1, q')" by simp_all
  then show "(t - 1, q') \<in> set (take n s)"
    by (metis nth_mem)
qed

lemma schedule_inv_initial:
  assumes "csize a = sz" "csize b = sz"
  shows "schedule_inv update a sz {} (a, b)"
  using assms by (auto simp: schedule_inv_def buffer_of_def)

lemma schedule_inv_prefix:
  assumes loc: "local_update sz update" and a: "csize a = sz" and b: "csize b = sz"
    and s: "fine_grained_schedule sz steps s"
  shows "n \<le> length s \<Longrightarrow>
         schedule_inv update a sz (set (take n s)) (run_calls update (take n s) (a, b))"
proof (induction n)
  case 0
  show ?case
    using schedule_inv_initial [OF a b] by (simp add: run_calls_fold)
next
  case (Suc n)
  then have n: "n < length s" by simp
  obtain t p where e: "s ! n = (t, p)" by (cases "s ! n")
  have tk: "take (Suc n) s = take n s @ [(t, p)]"
    using n e by (simp add: take_Suc_conv_app_nth)
  from s have r: "respects_neighbours sz s" by (simp add: fine_grained_schedule_def)
  have "(t, p) \<in> set s" using n e by (metis nth_mem)
  then have t: "0 \<le> t" and p: "p \<in> set (indices sz)"
    using fine_grained_schedule_set [OF s] by auto
  have new: "(t, p) \<notin> set (take n s)"
  proof
    assume "(t, p) \<in> set (take n s)"
    then obtain j where "j < n" "j < length s" "s ! j = (t, p)"
      by (auto simp: in_set_conv_nth)
    with n e nth_eq_iff_index_eq [OF fine_grained_schedule_distinct [OF s], of j n]
    show False by simp
  qed
  have c': "closed_events sz (insert (t, p) (set (take n s)))"
    using respects_neighbours_closed [OF r, of "Suc n"] by (simp add: tk)
  from schedule_inv_step [OF loc a _ respects_neighbours_closed [OF r] c' new t p]
    Suc.IH n
  show ?case
    by (simp add: tk run_calls_snoc)
qed

lemma result_in_a_buffer_of: "result_in_a steps ab = buffer_of steps ab"
proof -
  have "steps smod 2 \<noteq> 0 \<longleftrightarrow> odd steps"
    by (simp add: signed_modulo_int_def sgn_if odd_iff_mod_2_eq_one) presburger
  then show ?thesis
    by (auto simp: result_in_a_def buffer_of_def)
qed

text \<open>
  The containers \<^verbatim>\<open>a\<close> and \<^verbatim>\<open>b\<close> after a schedule of invocations: when the update
  function is local and the schedule runs every invocation \<open>(t, p)\<close> with \<open>0 \<le> t < steps\<close>
  once, after the invocations of the time before on the neighbours of \<open>p\<close>, the container
  that \<^verbatim>\<open>process\<close> leaves in \<^verbatim>\<open>a\<close> holds the result of \<open>steps\<close> sweeps.
\<close>

theorem schedule_computes_sweeps:
  assumes loc: "local_update (csize a) update" and b: "csize b = csize a"
    and steps: "0 \<le> steps"
    and s: "fine_grained_schedule (csize a) steps s"
  shows "same_contents (result_in_a steps (run_calls update s (a, b)))
           (run_steps update 0 a (nat steps))"
proof -
  let ?ab = "run_calls update s (a, b)"
  have inv: "schedule_inv update a (csize a) (set s) ?ab"
    using schedule_inv_prefix [OF loc refl b s, of "length s"] by simp
  have "cell (buffer_of steps ?ab) p = cell (run_steps update 0 a (nat steps)) p"
    if p: "p \<in> set (indices (csize a))" for p
  proof -
    have "steps = 0 \<or> (steps - 1, p) \<in> set s" and "(steps + 1, p) \<notin> set s"
      using fine_grained_schedule_set [OF s] p steps by auto
    with inv p steps show ?thesis
      unfolding schedule_inv_def by blast
  qed
  moreover have "csize (buffer_of steps ?ab) = csize a"
    using inv by (simp add: schedule_inv_def csize_buffer_of)
  ultimately show ?thesis
    by (simp add: result_in_a_buffer_of same_contents_iff)
qed

subsection \<open>The scanner and \<^verbatim>\<open>forEach\<close> as sequences of invocations\<close>

lemma scan_axis_fold:
  "scan_axis idx b sz body s = fold body (axis_cells (b ! idx) (sz ! idx)) s"
  by (simp add: scan_axis_def axis_cells_def Let_def)

lemma product_lists_single: "product_lists [xs] = map (\<lambda>x. [x]) xs"
  by (induction xs) simp_all

lemma fold_map_comp: "fold f (map g xs) s = fold (\<lambda>x. f (g x)) xs s"
  by (simp add: fold_map comp_def)

lemma fold_concat: "fold f (concat xss) s = fold (fold f) xss s"
  by (induction xss arbitrary: s) simp_all

lemma plain_scanner_fold:
  assumes "length pos = length b" and "dim < length b"
  shows "plain_scanner dim b lam pos t sz s =
         fold (\<lambda>x. lam x t)
           (map (\<lambda>tl. take (length b - dim - 1) pos @ tl)
              (product_lists (map (\<lambda>i. axis_cells (b ! i) (sz ! i))
                                  [length b - dim - 1..<length b]))) s"
  using assms
proof (induction dim arbitrary: pos s)
  case 0
  let ?idx = "length b - Suc 0"
  have up: "[?idx..<length b] = [?idx]"
    using 0 by (simp add: upt_conv_Cons)
  have "pos[?idx := p] = take ?idx pos @ [p]" for p
    using 0 by (simp add: upd_conv_take_nth_drop)
  then show ?case
    by (simp add: Let_def scan_axis_fold up product_lists_single fold_map_comp comp_def)
next
  case (Suc dim)
  let ?idx = "length b - Suc (Suc dim)"
  let ?k = "length b - Suc dim"
  have idx: "?idx < length b" "?k = Suc ?idx"
    using Suc.prems by simp_all
  have up: "[?idx..<length b] = ?idx # [?k..<length b]"
    using idx by (simp add: upt_conv_Cons)
  have tk: "take ?k (pos[?idx := p]) = take ?idx pos @ [p]" for p
    unfolding idx(2) using Suc.prems idx(1)
    by (simp add: take_Suc_conv_app_nth)
  have inner: "plain_scanner dim b lam (pos[?idx := p]) t sz =
      fold (\<lambda>x. lam x t)
        (map (\<lambda>tl. take ?idx pos @ p # tl)
           (product_lists (map (\<lambda>i. axis_cells (b ! i) (sz ! i)) [?k..<length b])))" for p
  proof
    fix s'
    show "plain_scanner dim b lam (pos[?idx := p]) t sz s' =
      fold (\<lambda>x. lam x t)
        (map (\<lambda>tl. take ?idx pos @ p # tl)
           (product_lists (map (\<lambda>i. axis_cells (b ! i) (sz ! i)) [?k..<length b]))) s'"
      using Suc.IH [of "pos[?idx := p]" s'] Suc.prems by (simp add: tk)
  qed
  show ?case
    by (simp add: Let_def scan_axis_fold up inner fold_concat fold_map_comp comp_def map_concat)
qed


lemma length_row_base [simp]: "length (row_base z \<tau>) = length (base z)"
  by (simp add: row_base_def)

lemma row_base_zero: "row_base z 0 = base z"
  by (rule nth_equalityI) (simp_all add: row_base_def)

lemma row_base_advance:
  "map (\<lambda>i. \<lparr>r_begin = r_begin (row_base z \<tau> ! i) + slopes z ! i,
              r_end = r_end (row_base z \<tau> ! i) - slopes z ! i\<rparr>) [0..<length (base z)] =
   row_base z (\<tau> + 1)"
  by (rule nth_equalityI) (simp_all add: row_base_def algebra_simps)

lemma plain_scanner_row:
  assumes "0 < length b"
  shows "plain_scanner (length b - 1) b lam (replicate (length b) 0) t sz s =
         fold (\<lambda>x. lam x t) (row_cells b sz) s"
  using plain_scanner_fold [of "replicate (length b) 0" b "length b - 1" lam t sz s] assms
  by (simp add: row_cells_def)

lemma plain_scanner_row_base:
  assumes "0 < length (base z)"
  shows "plain_scanner (length (base z) - Suc 0) (row_base z \<tau>) lam
           (replicate (length (base z)) 0) t sz s =
         fold (\<lambda>x. lam x t) (row_cells (row_base z \<tau>) sz) s"
  using plain_scanner_row [of "row_base z \<tau>" lam t sz s] assms by simp

lemma forEach_loop:
  assumes len: "0 < length (base z)"
  shows "fold (\<lambda>t (plainBase, s).
                 (map (\<lambda>i. \<lparr>r_begin = r_begin (plainBase ! i) + slopes z ! i,
                             r_end = r_end (plainBase ! i) - slopes z ! i\<rparr>)
                      [0..<length (base z)],
                  if odd t
                  then plain_scanner (length (base z) - 1) plainBase od
                         (replicate (length (base z)) 0) (signed_take_bit 31 t) limits s
                  else plain_scanner (length (base z) - 1) plainBase ev
                         (replicate (length (base z)) 0) (signed_take_bit 31 t) limits s))
              [t..t1] (row_base z (t - t_begin z), s) =
         (row_base z (max t (t1 + 1) - t_begin z),
          fold (\<lambda>call s. if odd (fst call) then od (snd call) (fst call) s
                          else ev (snd call) (fst call) s)
               (concat (map (\<lambda>t. map (Pair (signed_take_bit 31 t))
                                      (row_cells (row_base z (t - t_begin z)) limits))
                            [t..t1])) s)"
proof (induction "nat (t1 + 1 - t)" arbitrary: t s)
  case 0
  then have "[t..t1] = []" by simp
  moreover have "max t (t1 + 1) = t" using 0 by simp
  ultimately show ?case by simp
next
  case (Suc n)
  then have le: "t \<le> t1" by simp
  then have up: "[t..t1] = t # [t + 1..t1]" by (simp add: upto_rec1)
  have n: "n = nat (t1 + 1 - (t + 1))" using Suc.hyps(2) by simp
  have adv: "t + 1 - t_begin z = t - t_begin z + 1" by simp
  have mx: "max (t + 1) (t1 + 1) = max t (t1 + 1)" using le by simp
  show ?case
    unfolding up
    using Suc.hyps(1) [OF n]
    by (simp add: row_base_advance adv mx fold_map_comp comp_def plain_scanner_row_base [OF len]
        even_signed_take_bit_iff)
qed

lemma forEach_fold:
  assumes len: "0 < length (base z)"
  shows "forEach z ev od limits s =
         fold (\<lambda>call s. if odd (fst call) then od (snd call) (fst call) s
                         else ev (snd call) (fst call) s) (zoid_calls z limits) s"
  using forEach_loop [OF len, where od = od and ev = ev and limits = limits
      and t = "t_begin z" and ?t1.0 = "t_end z - 1" and s = s]
  by (simp add: forEach_def Let_def zoid_calls_def row_base_zero)

lemma fold_snoc_calls:
  "fold (\<lambda>call s. s @ [call]) xs s0 = s0 @ xs"
  by (induction xs arbitrary: s0) auto

lemma forEach_calls_eq:
  assumes len: "0 < length (base z)"
  shows "forEach_calls z limits = zoid_calls z limits"
  using forEach_fold [OF len, where ev = "\<lambda>pos t s. s @ [(t, pos)]"
      and od = "\<lambda>pos t s. s @ [(t, pos)]" and limits = limits and s = "[]"]
  by (simp add: forEach_calls_def fold_snoc_calls)

lemma forEach_run_calls:
  assumes len: "0 < length (base z)"
  shows "forEach z (even_op update) (odd_op update) limits ab =
         run_calls update (forEach_calls z limits) ab"
  by (simp add: forEach_fold [OF len] forEach_calls_eq [OF len] run_calls_def)

lemma run_calls_append:
  "run_calls update (s1 @ s2) ab = run_calls update s2 (run_calls update s1 ab)"
  by (simp add: run_calls_def)

lemma run_calls_concat:
  "run_calls update (concat ss) ab = fold (run_calls update) ss ab"
  by (induction ss arbitrary: ab) (simp_all add: run_calls_append, simp add: run_calls_def)

lemma runSequential_run_calls:
  assumes "\<forall>cur\<in>set layers. \<forall>idx\<in>set order. 0 < length (base (cur ! idx))"
  shows "runSequential order layers (even_op update) (odd_op update) limits ab =
         run_calls update (runSequential_calls order layers limits) ab"
proof -
  have inner: "fold (\<lambda>idx s. forEach (cur ! idx) (even_op update) (odd_op update) limits s) xs s =
        run_calls update (concat (map (\<lambda>idx. forEach_calls (cur ! idx) limits) xs)) s"
    if "\<forall>idx\<in>set xs. 0 < length (base (cur ! idx))" for cur xs s
    using that
    by (induction xs arbitrary: s) (simp_all add: run_calls_append forEach_run_calls, simp add: run_calls_def)
  show ?thesis
    using assms
    unfolding runSequential_def runSequential_calls_def
    by (induction layers arbitrary: ab) (simp_all add: run_calls_append inner, simp add: run_calls_def)
qed

subsection \<open>Facts about the order of the elements of a list\<close>

lemma precedes_append:
  assumes "x \<in> set xs" and "y \<in> set ys"
  shows "precedes (xs @ ys) x y"
proof -
  from assms obtain i j where "i < length xs" "xs ! i = x" "j < length ys" "ys ! j = y"
    by (auto simp: in_set_conv_nth)
  then have "i < length xs + j \<and> length xs + j < length (xs @ ys) \<and>
             (xs @ ys) ! i = x \<and> (xs @ ys) ! (length xs + j) = y"
    by (simp add: nth_append)
  then show ?thesis unfolding precedes_def by blast
qed

lemma precedes_append_left:
  assumes "precedes xs x y"
  shows "precedes (xs @ ys) x y"
proof -
  from assms obtain i j where "i < j" "j < length xs" "xs ! i = x" "xs ! j = y"
    unfolding precedes_def by blast
  then have "i < j \<and> j < length (xs @ ys) \<and> (xs @ ys) ! i = x \<and> (xs @ ys) ! j = y"
    by (simp add: nth_append)
  then show ?thesis unfolding precedes_def by blast
qed

lemma precedes_append_right:
  assumes "precedes ys x y"
  shows "precedes (xs @ ys) x y"
proof -
  from assms obtain i j where "i < j" "j < length ys" "ys ! i = x" "ys ! j = y"
    unfolding precedes_def by blast
  then have "length xs + i < length xs + j \<and> length xs + j < length (xs @ ys) \<and>
             (xs @ ys) ! (length xs + i) = x \<and> (xs @ ys) ! (length xs + j) = y"
    by (simp add: nth_append)
  then show ?thesis unfolding precedes_def by blast
qed

lemma precedes_split:
  "precedes xs x y \<longleftrightarrow> (\<exists>as bs. xs = as @ bs \<and> x \<in> set as \<and> y \<in> set bs)"
proof
  assume "precedes xs x y"
  then obtain i j where ij: "i < j" "j < length xs" "xs ! i = x" "xs ! j = y"
    unfolding precedes_def by blast
  have "xs = take j xs @ drop j xs" by simp
  moreover have "x \<in> set (take j xs)"
  proof -
    have "i < length (take j xs)" "take j xs ! i = x" using ij by simp_all
    then show ?thesis by (metis nth_mem)
  qed
  moreover have "y \<in> set (drop j xs)"
  proof -
    have "drop j xs = xs ! j # drop (Suc j) xs"
      using ij(2) by (rule Cons_nth_drop_Suc [symmetric])
    then show ?thesis using ij by simp
  qed
  ultimately show "\<exists>as bs. xs = as @ bs \<and> x \<in> set as \<and> y \<in> set bs" by blast
next
  assume "\<exists>as bs. xs = as @ bs \<and> x \<in> set as \<and> y \<in> set bs"
  then show "precedes xs x y" by (auto intro: precedes_append)
qed

lemma precedes_concat_map_inner:
  assumes "x \<in> set xs" and "precedes (f x) d e"
  shows "precedes (concat (map f xs)) d e"
proof -
  from assms(1) obtain as bs where "xs = as @ x # bs" by (meson split_list)
  then have "concat (map f xs) = concat (map f as) @ (f x @ concat (map f bs))" by simp
  moreover have "precedes (f x @ concat (map f bs)) d e"
    by (rule precedes_append_left [OF assms(2)])
  ultimately show ?thesis
    by (simp add: precedes_append_right)
qed

lemma precedes_concat_map_outer:
  assumes "precedes xs x y" and "d \<in> set (f x)" and "e \<in> set (f y)"
  shows "precedes (concat (map f xs)) d e"
proof -
  from assms(1) obtain as bs where s: "xs = as @ bs" "x \<in> set as" "y \<in> set bs"
    unfolding precedes_split by blast
  have "concat (map f xs) = concat (map f as) @ concat (map f bs)" using s by simp
  moreover have "d \<in> set (concat (map f as))" using s assms(2) by auto
  moreover have "e \<in> set (concat (map f bs))" using s assms(3) by auto
  ultimately show ?thesis by (simp add: precedes_append)
qed

lemma precedes_upto: "a \<le> i \<Longrightarrow> i < j \<Longrightarrow> j \<le> b \<Longrightarrow> precedes [a..b] i j" for a b :: int
proof -
  assume a: "a \<le> i" "i < j" "j \<le> b"
  then have "[a..b] = [a..j - 1] @ [j..b]"
    using upto_split1 [of a j b] by simp
  moreover have "i \<in> set [a..j - 1]" "j \<in> set [j..b]" using a by auto
  ultimately show ?thesis by (simp add: precedes_append)
qed

lemma precedes_upt:
  assumes "i < j" "j < n"
  shows "precedes [0..<n] i j"
proof -
  have "i < j \<and> j < length [0..<n] \<and> [0..<n] ! i = i \<and> [0..<n] ! j = j"
    using assms by simp
  then show ?thesis unfolding precedes_def by blast
qed

lemma precedes_sorted_key:
  assumes s: "sorted (map f xs)" and x: "x \<in> set xs" and y: "y \<in> set xs" and lt: "f x < f y"
  shows "precedes xs x y"
proof -
  from x y obtain i j where ij: "i < length xs" "xs ! i = x" "j < length xs" "xs ! j = y"
    by (auto simp: in_set_conv_nth)
  have "i < j"
  proof (rule ccontr)
    assume "\<not> i < j"
    then have "j \<le> i" by simp
    with s ij have "map f xs ! j \<le> map f xs ! i"
      by (intro sorted_nth_mono) simp_all
    with ij have "f (xs ! j) \<le> f (xs ! i)" by simp
    with ij lt show False by simp
  qed
  with ij show ?thesis unfolding precedes_def by blast
qed

lemma distinct_concat_map:
  assumes "distinct xs"
    and "\<And>x. x \<in> set xs \<Longrightarrow> distinct (f x)"
    and "\<And>x y. x \<in> set xs \<Longrightarrow> y \<in> set xs \<Longrightarrow> x \<noteq> y \<Longrightarrow> set (f x) \<inter> set (f y) = {}"
  shows "distinct (concat (map f xs))"
  using assms
proof (induction xs)
  case Nil
  show ?case by simp
next
  case (Cons a xs)
  have "set (f a) \<inter> set (f y) = {}" if "y \<in> set xs" for y
    using Cons.prems(1) Cons.prems(3) [of a y] that by auto
  then have "set (f a) \<inter> (\<Union>y\<in>set xs. set (f y)) = {}" by blast
  moreover have "distinct (concat (map f xs))"
    using Cons by simp
  ultimately show ?case using Cons.prems(2) by simp
qed

lemma respects_neighbours_precedes:
  assumes d: "distinct s"
    and p: "\<And>t p q. (t, p) \<in> set s \<Longrightarrow> 0 < t \<Longrightarrow> q \<in> set (indices sz) \<Longrightarrow>
             neighbours sz p q \<Longrightarrow> precedes s (t - 1, q) (t, p)"
  shows "respects_neighbours sz s"
  unfolding respects_neighbours_def
proof (intro allI impI)
  fix k q
  assume k: "k < length s"
    and a: "0 < fst (s ! k) \<and> q \<in> set (indices sz) \<and> neighbours sz (snd (s ! k)) q"
  have "(fst (s ! k), snd (s ! k)) \<in> set s" using k by simp
  from p [OF this] a obtain i j where ij: "i < j" "j < length s"
    "s ! i = (fst (s ! k) - 1, q)" "s ! j = (fst (s ! k), snd (s ! k))"
    unfolding precedes_def by blast
  then have "j = k" using d k by (simp add: nth_eq_iff_index_eq)
  with ij show "\<exists>j<k. s ! j = (fst (s ! k) - 1, q)" by blast
qed

subsection \<open>The strategies on small containers\<close>

lemma indices_one: "indices [1] = [[0]]"
  by code_simp

lemma indices_two: "indices [2] = [[0], [1]]"
  by code_simp

text \<open>The iterations in the order of their steps form a schedule that the neighbourhood
  synchronisation admits.\<close>

lemma all_iterations_schedule: "fine_grained_schedule sz steps (all_iterations sz steps)"
proof -
  have "respects_neighbours sz (all_iterations sz steps)"
  proof (rule respects_neighbours_precedes [OF distinct_all_iterations])
    fix t p q
    assume e: "(t, p) \<in> set (all_iterations sz steps)" and t: "0 < t"
      and q: "q \<in> set (indices sz)"
    from e have b: "t < steps" "p \<in> set (indices sz)"
      by (simp_all add: set_all_iterations)
    have "precedes [0..steps - 1] (t - 1) t"
      by (rule precedes_upto) (use t b in simp_all)
    then show "precedes (all_iterations sz steps) (t - 1, q) (t, p)"
      unfolding all_iterations_def
      by (rule precedes_concat_map_outer) (use q b in simp_all)
  qed
  then show ?thesis by (simp add: fine_grained_schedule_def)
qed

lemma all_iterations_two_cells_1: "all_iterations [2] 1 = [(0, [0]), (0, [1])]"
  by code_simp

lemma all_iterations_two_cells_2:
  "all_iterations [2] 2 = [(0, [0]), (0, [1]), (1, [0]), (1, [1])]"
  by code_simp

lemma fine_loop_one_step: "fine_grained_iterative_loop 1 0 (True, []) = (False, [(0, True)])"
  by (simp add: fine_grained_iterative_loop.simps [of 1 0]
      fine_grained_iterative_loop.simps [of 1 1])

lemma fine_loop_two_steps:
  "fine_grained_iterative_loop 2 0 (True, []) = (True, [(0, True), (1, False)])"
  by (simp add: fine_grained_iterative_loop.simps [of 2 0]
      fine_grained_iterative_loop.simps [of 2 1] fine_grained_iterative_loop.simps [of 2 2])

text \<open>One step of the fine-grained strategy whose iterations all run after the final
  swap, before the wait is over: the iterations write to the container that the swap
  made \<^verbatim>\<open>b\<close>, and \<^verbatim>\<open>a\<close> keeps what the allocation of \<^verbatim>\<open>b\<close> held.\<close>

lemma fine_grained_after_swap:
  "csize a = [2] \<Longrightarrow>
   fine_grained_iterative [] (all_iterations [2] 1) a 1 update b_init = fresh [2] b_init"
  by (simp add: fine_grained_iterative_def fine_loop_one_step all_iterations_two_cells_1
      run_iteration_def iter_body_def initial_state_def final_swap_def)

text \<open>
  Claim C9, for \<^verbatim>\<open>stencil\<close> with its default strategy
  \<^verbatim>\<open>fine_grained_iterative\<close>, on the container of two cells holding 5, the update
  function that increments a cell, and \<open>T1 = T2 = 1\<close>. The run of \<open>T1 + T2 = 2\<close> steps
  whose iterations are over before the final swap leaves \<open>[7, 7]\<close>. In the runs of one
  step the final \<^verbatim>\<open>std::swap(a,b)\<close> stands before \<^verbatim>\<open>ref.wait()\<close>: when the iterations
  of the step run between the two, the first run leaves in \<^verbatim>\<open>a\<close> what its fresh
  container held, and so does the second: \<open>[0, 0]\<close>. With the strategy
  \<^verbatim>\<open>sequential_recursive\<close> on the container of one cell, the run of \<open>T1 + T2 = 0 + 1\<close>
  steps does not return.
\<close>

theorem fine_grained_composition_fails:
  "contents (fine_grained_iterative (all_iterations [2] 2) [] two_cells 2 increment_cell
               (\<lambda>p. 0)) = [7, 7] \<and>
   contents (fine_grained_iterative [] (all_iterations [2] 1)
               (fine_grained_iterative [] (all_iterations [2] 1) two_cells 1 increment_cell
                  (\<lambda>p. 0))
               1 (\<lambda>t. increment_cell (t + 1)) (\<lambda>p. 0)) = [0, 0] \<and>
   sequential_recursive [0, 1] one_cell (0 + 1) increment_cell (\<lambda>p. 0) = None"
proof -
  have 1: "contents (fine_grained_iterative (all_iterations [2] 2) [] two_cells 2 increment_cell
               (\<lambda>p. 0)) = [7, 7]"
    by (simp add: fine_grained_iterative_def fine_loop_two_steps all_iterations_two_cells_2
        run_iteration_def iter_body_def initial_state_def fresh_def store_def
        increment_cell_def two_cells_def indices_two final_swap_def contents_def
        del: indices.simps)
  have s: "csize two_cells = [2]" by (simp add: two_cells_def)
  have 2: "contents (fine_grained_iterative [] (all_iterations [2] 1)
               (fine_grained_iterative [] (all_iterations [2] 1) two_cells 1 increment_cell
                  (\<lambda>p. 0))
               1 (\<lambda>t. increment_cell (t + 1)) (\<lambda>p. 0)) = [0, 0]"
    by (simp add: fine_grained_after_swap s fresh_def contents_def indices_two
        del: indices.simps)
  have h: "getMinimumWidth (full (csize one_cell)) sdiv 2 = 0"
    by (simp add: one_cell_def getMinimumWidth_full_singleton sdiv2_nonneg)
  have "create (full (csize one_cell)) 1 = None"
    by (rule create_diverges [OF h]) simp
  then have 3: "sequential_recursive [0, 1] one_cell (0 + 1) increment_cell (\<lambda>p. 0) = None"
    by (simp add: sequential_recursive_def)
  from 1 2 3 show ?thesis by simp
qed

lemma one_cell_iteration:
  "iter_body increment_cell 0 [0] (initial_state one_cell (\<lambda>p. 0)) =
   \<lparr>cont_a = one_cell, cont_b = \<lparr>csize = [1], cell = (\<lambda>p. 0)([0] := 6)\<rparr>, x_at_a = True\<rparr>"
  by (simp add: iter_body_def initial_state_def fresh_def store_def increment_cell_def
      one_cell_def indices_one)

text \<open>
  Claim C1, on the container of one cell holding 5, with one step and the update
  function that increments a cell. The three iterative strategies leave \<open>[6]\<close> in the
  container. The two recursive strategies leave nothing: the plan of a container of one
  cell has layers of height 0, \<^verbatim>\<open>ExecutionPlan::create\<close> never completes it, and
  \<^verbatim>\<open>process\<close> does not return.
\<close>

theorem one_cell_strategies_disagree:
  "contents (sequential_iterative one_cell 1 increment_cell (\<lambda>p. 0)) = [6] \<and>
   contents (coarse_grained_iterative (\<lambda>t. [[0]]) one_cell 1 increment_cell (\<lambda>p. 0)) = [6] \<and>
   contents (fine_grained_iterative [(0, [0])] [] one_cell 1 increment_cell (\<lambda>p. 0)) = [6] \<and>
   sequential_recursive [0, 1] one_cell 1 increment_cell (\<lambda>p. 0) = None \<and>
   parallel_recursive [] one_cell 1 increment_cell (\<lambda>p. 0) = None"
proof -
  have sz: "csize (cont_a (initial_state one_cell (\<lambda>p. 0))) = [1]"
    by (simp add: initial_state_def one_cell_def)
  have 1: "contents (sequential_iterative one_cell 1 increment_cell (\<lambda>p. 0)) = [6]"
    by (simp add: sequential_iterative_def sequential_iterative_loop.simps [of _ 1 0]
        sequential_iterative_loop.simps [of _ 1 1] detail_forEach_def sz indices_one
        one_cell_iteration swap_xy_def final_swap_def contents_def)
  have 2: "contents (coarse_grained_iterative (\<lambda>t. [[0]]) one_cell 1 increment_cell (\<lambda>p. 0)) =
           [6]"
    by (simp add: coarse_grained_iterative_def coarse_grained_iterative_loop.simps [of _ _ 1 0]
        coarse_grained_iterative_loop.simps [of _ _ 1 1] indices_one
        one_cell_iteration swap_xy_def final_swap_def contents_def)
  have 3: "contents (fine_grained_iterative [(0, [0])] [] one_cell 1 increment_cell (\<lambda>p. 0)) =
           [6]"
    by (simp add: fine_grained_iterative_def fine_loop_one_step run_iteration_def iter_body_def
        initial_state_def fresh_def store_def increment_cell_def one_cell_def indices_one
        final_swap_def contents_def)
  have h: "getMinimumWidth (full (csize one_cell)) sdiv 2 = 0"
    by (simp add: one_cell_def getMinimumWidth_full_singleton sdiv2_nonneg)
  have c: "create (full (csize one_cell)) 1 = None"
    by (rule create_diverges [OF h]) simp
  have 4: "sequential_recursive [0, 1] one_cell 1 increment_cell (\<lambda>p. 0) = None"
    by (simp add: sequential_recursive_def c)
  have 5: "parallel_recursive [] one_cell 1 increment_cell (\<lambda>p. 0) = None"
    by (simp add: parallel_recursive_def c)
  from 1 2 3 4 5 show ?thesis by simp
qed

end
